theory Spec2Isabelle
  imports Main "HOL-Library.Signed_Division" "HOL-Library.Monad_Syntax" "HOL-Library.Multiset"
begin

section \<open>Element types and vector types\<close>

text \<open>
  The element type of a dot operand is an MLIR integer or floating-point type.  Of a type the
  analysis only asks whether it is an integer type, what its bit width is, and whether it is
  one of the two 16-bit floating-point types.  F16 and BF16 are the only floating-point types
  that are 16 bits wide.
\<close>

datatype FloatKind =
  Float8E5M2 | Float8E4M3FN | Float16 | BFloat16 | FloatTF32 | Float32 | Float64

datatype ElemType = IntegerType nat | FloatType FloatKind

fun getWidth :: "FloatKind \<Rightarrow> nat" where
  "getWidth Float8E5M2 = 8"
| "getWidth Float8E4M3FN = 8"
| "getWidth Float16 = 16"
| "getWidth BFloat16 = 16"
| "getWidth FloatTF32 = 19"
| "getWidth Float32 = 32"
| "getWidth Float64 = 64"

fun isInteger :: "ElemType \<Rightarrow> bool" where
  "isInteger (IntegerType w) = True"
| "isInteger (FloatType k) = False"

text \<open>\<open>ty.isInteger(width)\<close>: an integer type of exactly that width.\<close>

fun isIntegerOfWidth :: "ElemType \<Rightarrow> nat \<Rightarrow> bool" where
  "isIntegerOfWidth (IntegerType w) width = (w = width)"
| "isIntegerOfWidth (FloatType k) width = False"

fun getIntOrFloatBitWidth :: "ElemType \<Rightarrow> nat" where
  "getIntOrFloatBitWidth (IntegerType w) = w"
| "getIntOrFloatBitWidth (FloatType k) = getWidth k"

definition isF16 :: "ElemType \<Rightarrow> bool" where
  "isF16 ty = (ty = FloatType Float16)"

definition isBF16 :: "ElemType \<Rightarrow> bool" where
  "isBF16 ty = (ty = FloatType BFloat16)"

text \<open>
  A vector type is a shape and an element type.  Dimension sizes are \<open>int64_t\<close> values in
  the source and integers here; where the source multiplies two of them, the 64-bit result
  is written out (\<open>mulInt64\<close> below).  Reading a dimension that the shape does not have
  fails an assertion: the value \<open>None\<close>.
\<close>

record VectorType =
  shape :: "int list"
  elementType :: ElemType

definition getRank :: "VectorType \<Rightarrow> int" where
  "getRank ty = int (length (shape ty))"

definition dimAt :: "int list \<Rightarrow> nat \<Rightarrow> int option" where
  "dimAt shp i = (if i < length shp then Some (shp ! i) else None)"

definition getDimSize :: "VectorType \<Rightarrow> nat \<Rightarrow> int option" where
  "getDimSize ty i = dimAt (shape ty) i"

text \<open>MLIR only builds vector types whose dimension sizes are all positive.\<close>

definition validVectorType :: "VectorType \<Rightarrow> bool" where
  "validVectorType ty = list_all (\<lambda>d. 0 < d) (shape ty)"

section \<open>Operations, buffers and the candidate descriptor\<close>

text \<open>
  SSA values are identified by numbers.  Of the users of a value the analysis distinguishes
  a vector transfer-write (with its destination memory, its indices, and whether it has a
  mask or a bounds check) from every other operation.
\<close>

type_synonym Value = nat

datatype Operation =
  TransferWriteOp (hasMaskOrBoundsCheck: bool) (getSource: Value) (getIndices: "Value list")
| OtherOp nat

record MemBuffer =
  memRef :: "Value option"
  indices :: "Value list"
  step :: "Value list"
  vnni :: bool

definition emptyMemBuffer :: MemBuffer where
  "emptyMemBuffer = \<lparr>memRef = None, indices = [], step = [], vnni = False\<rparr>"

text \<open>
  The dot operation: the types of its operands \<open>a\<close>, \<open>b\<close> and \<open>c\<close>, the answer of
  \<open>isLoopCarriedAcc\<close> for its accumulator, the users of its result, and the users of the
  loop result that carries the accumulator out of the enclosing loop.  The result of a dot
  operation has the type of its accumulator \<open>c\<close>: \<open>convertCandidate\<close> replaces the operation
  by \<open>op.getC()\<close> and by values of the accumulator's type.  So \<open>op.getType()\<close> is not a
  field of its own.
\<close>

record DotOp =
  lhsTy :: VectorType
  rhsTy :: VectorType
  accTy :: VectorType
  isLoopCarriedAcc :: bool
  resultUsers :: "Operation list"
  loopResultUsers :: "Operation list"

definition resTy :: "DotOp \<Rightarrow> VectorType" where
  "resTy dot = accTy dot"

record AmxDotOpCandidate =
  op :: "DotOp option"
  lhsTileElemTy :: "ElemType option"
  rhsTileElemTy :: "ElemType option"
  accTileElemTy :: "ElemType option"
  tileM :: int
  tileN :: int
  tileK :: int
  tilesInBlockM :: int
  tilesInBlockN :: int
  keepAccOnTiles :: bool
  keepAccInBuf :: bool
  outBuf :: MemBuffer
  origStore :: "Operation option"

text \<open>
  A default-initialised descriptor: the handles are null, the buffer is empty, the two flags
  and \<open>origStore\<close> take their member initialisers, and the five sizes are indeterminate (they
  are parameters here).
\<close>

definition defaultCandidate :: "int \<Rightarrow> int \<Rightarrow> int \<Rightarrow> int \<Rightarrow> int \<Rightarrow> AmxDotOpCandidate" where
  "defaultCandidate tm tn tk bm bn =
     \<lparr>op = None, lhsTileElemTy = None, rhsTileElemTy = None, accTileElemTy = None,
      tileM = tm, tileN = tn, tileK = tk, tilesInBlockM = bm, tilesInBlockN = bn,
      keepAccOnTiles = False, keepAccInBuf = False,
      outBuf = emptyMemBuffer, origStore = None\<rparr>"

section \<open>Candidate analysis\<close>

text \<open>
  \<open>checkElemTypes\<close> returns its verdict and the descriptor, whose tile element types it
  fills in when the verdict is true.  In the floating-point case the search for the common
  input type either leaves the function (\<open>None\<close>: two 16-bit inputs of different types) or
  gives \<open>commonInputElemTy\<close>.
\<close>

definition checkElemTypes ::
  "ElemType \<Rightarrow> ElemType \<Rightarrow> ElemType \<Rightarrow> ElemType \<Rightarrow> bool \<Rightarrow> bool \<Rightarrow> bool \<Rightarrow>
   AmxDotOpCandidate \<Rightarrow> bool \<times> AmxDotOpCandidate" where
  "checkElemTypes lhsElemTy rhsElemTy accElemTy resElemTy supportInt8 supportFp16 supportBf16
     candidate =
   (if isInteger lhsElemTy then
      (if \<not> supportInt8 then (False, candidate)
       else if \<not> isIntegerOfWidth lhsElemTy 8 \<or> \<not> isIntegerOfWidth rhsElemTy 8
         then (False, candidate)
       else if \<not> isInteger accElemTy \<or> getIntOrFloatBitWidth accElemTy > 32 \<or>
               \<not> isInteger resElemTy \<or> getIntOrFloatBitWidth resElemTy > 32
         then (False, candidate)
       else (True, candidate\<lparr>lhsTileElemTy := Some (IntegerType 8),
                              rhsTileElemTy := Some (IntegerType 8),
                              accTileElemTy := Some (IntegerType 32)\<rparr>))
    else if isInteger rhsElemTy \<or> isInteger accElemTy \<or> isInteger resElemTy
      then (False, candidate)
    else if getIntOrFloatBitWidth lhsElemTy > 16 \<or> getIntOrFloatBitWidth rhsElemTy > 16
      then (False, candidate)
    else
      (case (if getIntOrFloatBitWidth lhsElemTy = 16 then
               (if getIntOrFloatBitWidth rhsElemTy = 16 \<and> rhsElemTy \<noteq> lhsElemTy then None
                else Some lhsElemTy)
             else if getIntOrFloatBitWidth rhsElemTy = 16 then Some rhsElemTy
             else if supportBf16 then Some (FloatType BFloat16)
             else Some (FloatType Float16)) of
         None \<Rightarrow> (False, candidate)
       | Some commonInputElemTy \<Rightarrow>
           if isF16 commonInputElemTy \<and> \<not> supportFp16 then (False, candidate)
           else if isBF16 commonInputElemTy \<and> \<not> supportBf16 then (False, candidate)
           else if getIntOrFloatBitWidth accElemTy > 32 then (False, candidate)
           else (True, candidate\<lparr>lhsTileElemTy := Some commonInputElemTy,
                                  rhsTileElemTy := Some commonInputElemTy,
                                  accTileElemTy := Some (FloatType Float32)\<rparr>)))"

text \<open>
  The three comparisons are joined by the short-circuit \<open>||\<close>: a later dimension is read only
  when the earlier ones are at least 8.
\<close>

definition checkInputShapes :: "VectorType \<Rightarrow> VectorType \<Rightarrow> bool option" where
  "checkInputShapes lhsT resT =
   (if getRank lhsT \<noteq> 2 then Some False
    else do {
      d0 \<leftarrow> getDimSize lhsT 0;
      if d0 < 8 then Some False
      else do {
        d1 \<leftarrow> getDimSize lhsT 1;
        if d1 < 8 then Some False
        else do {
          r1 \<leftarrow> getDimSize resT 1;
          if r1 < 8 then Some False else Some True
        }
      }
    })"

text \<open>
  The product of two \<open>int64_t\<close> values is a 64-bit value: \<open>toInt64\<close> takes an integer to the
  two's complement value of its low 64 bits, and \<open>mulInt64\<close> is the product as the compiled
  code computes it.  The product of two block extents is the only arithmetic of the planner
  that can leave the 64-bit range for dimension sizes that are themselves \<open>int64_t\<close> values:
  the tile sizes and the quotients are not larger than the dimension sizes.
\<close>

definition toInt64 :: "int \<Rightarrow> int" where
  "toInt64 x = (x + 2 ^ 63) mod 2 ^ 64 - 2 ^ 63"

definition mulInt64 :: "int \<Rightarrow> int \<Rightarrow> int" where
  "mulInt64 a b = toInt64 (a * b)"

text \<open>
  The block-halving loop of \<open>setupBlockAndTileSizes\<close>.  \<open>/=\<close> on \<open>int64_t\<close> truncates towards
  zero, which is \<open>sdiv\<close>.
\<close>

function accBlocksLoop :: "int \<Rightarrow> int \<Rightarrow> int \<times> int" where
  "accBlocksLoop accBlocksM accBlocksN =
   (if mulInt64 accBlocksM accBlocksN > 4 then
      (if accBlocksM > accBlocksN then accBlocksLoop (accBlocksM sdiv 2) accBlocksN
       else accBlocksLoop accBlocksM (accBlocksN sdiv 2))
    else (accBlocksM, accBlocksN))"
  by pat_completeness auto

termination accBlocksLoop
proof (relation "measure (\<lambda>(a, b). nat (\<bar>a\<bar> + \<bar>b\<bar>))")
  have halve: "\<bar>a sdiv 2\<bar> < \<bar>a\<bar>" if "a \<noteq> 0" for a :: int
  proof -
    from that have "0 < \<bar>a\<bar>" by simp
    then have "\<bar>a\<bar> div 2 < \<bar>a\<bar>" by arith
    moreover have "\<bar>a sdiv 2\<bar> = \<bar>a\<bar> div 2"
      by (simp add: signed_divide_int_def abs_mult abs_sgn_eq that)
    ultimately show ?thesis by simp
  qed
  show "wf (measure (\<lambda>(a, b). nat (\<bar>a\<bar> + \<bar>b\<bar>)))" by simp
  show "((accBlocksM sdiv 2, accBlocksN), (accBlocksM, accBlocksN))
          \<in> measure (\<lambda>(a, b). nat (\<bar>a\<bar> + \<bar>b\<bar>))"
    if "4 < mulInt64 accBlocksM accBlocksN" for accBlocksM accBlocksN :: int
  proof -
    from that have "accBlocksM \<noteq> 0" by (auto simp: mulInt64_def toInt64_def)
    then show ?thesis using halve [of accBlocksM] by simp
  qed
  show "((accBlocksM, accBlocksN sdiv 2), (accBlocksM, accBlocksN))
          \<in> measure (\<lambda>(a, b). nat (\<bar>a\<bar> + \<bar>b\<bar>))"
    if "4 < mulInt64 accBlocksM accBlocksN" for accBlocksM accBlocksN :: int
  proof -
    from that have "accBlocksN \<noteq> 0" by (auto simp: mulInt64_def toInt64_def)
    then show ?thesis using halve [of accBlocksN] by simp
  qed
qed

declare accBlocksLoop.simps [simp del]

text \<open>
  Reading \<open>resShape[0]\<close>, \<open>resShape[1]\<close> or \<open>lhsShape[1]\<close> out of range, a null tile element
  type, and a division by zero are failures (\<open>None\<close>).
\<close>

definition setupBlockAndTileSizes ::
  "int list \<Rightarrow> int list \<Rightarrow> AmxDotOpCandidate \<Rightarrow> AmxDotOpCandidate option" where
  "setupBlockAndTileSizes lhsShape resShape candidate =
   do {
     m \<leftarrow> dimAt resShape 0;
     n \<leftarrow> dimAt resShape 1;
     k \<leftarrow> dimAt lhsShape 1;
     ty \<leftarrow> lhsTileElemTy candidate;
     if getIntOrFloatBitWidth ty = 0 \<or> min m 16 = 0 \<or> min n 16 = 0 then None
     else
       let tM = min m 16;
           tN = min n 16;
           tK = min k (512 sdiv int (getIntOrFloatBitWidth ty));
           (accBlocksM, accBlocksN) = accBlocksLoop (m sdiv tM) (n sdiv tN)
       in Some (candidate\<lparr>tileM := tM, tileN := tN, tileK := tK,
                           tilesInBlockM := accBlocksM, tilesInBlockN := accBlocksN\<rparr>)
   }"

text \<open>
  \<open>findOutputBuffer\<close> takes the users of the value.  With exactly one use, a transfer-write
  without mask or bounds check gives the output buffer; \<open>origStore\<close> is assigned the result of
  the cast in either case.
\<close>

definition findOutputBuffer :: "Operation list \<Rightarrow> AmxDotOpCandidate \<Rightarrow> AmxDotOpCandidate" where
  "findOutputBuffer users candidate =
   (case users of
      [user] \<Rightarrow>
        (case user of
           TransferWriteOp masked src idxs \<Rightarrow>
             (if \<not> masked
              then candidate\<lparr>outBuf := \<lparr>memRef = Some src, indices = idxs, step = [],
                                         vnni = False\<rparr>,
                              origStore := Some user\<rparr>
              else candidate\<lparr>origStore := Some user\<rparr>)
         | OtherOp _ \<Rightarrow> candidate\<lparr>origStore := None\<rparr>)
    | _ \<Rightarrow> candidate)"

definition getResValueForLoopCarriedAcc :: "DotOp \<Rightarrow> Operation list" where
  "getResValueForLoopCarriedAcc dot = loopResultUsers dot"

definition isAmxCandidate ::
  "DotOp \<Rightarrow> bool \<Rightarrow> bool \<Rightarrow> bool \<Rightarrow> AmxDotOpCandidate \<Rightarrow> (bool \<times> AmxDotOpCandidate) option"
  where
  "isAmxCandidate dot supportInt8 supportFp16 supportBf16 candidate =
   (case checkElemTypes (elementType (lhsTy dot)) (elementType (rhsTy dot))
           (elementType (accTy dot)) (elementType (resTy dot))
           supportInt8 supportFp16 supportBf16 candidate of
      (False, c1) \<Rightarrow> Some (False, c1)
    | (True, c1) \<Rightarrow> do {
        shapesOk \<leftarrow> checkInputShapes (lhsTy dot) (resTy dot);
        if \<not> shapesOk then Some (False, c1)
        else do {
          c2 \<leftarrow> setupBlockAndTileSizes (shape (lhsTy dot)) (shape (resTy dot))
                  (c1\<lparr>op := Some dot\<rparr>);
          let c3 = c2\<lparr>keepAccOnTiles := isLoopCarriedAcc dot\<rparr>;
          if keepAccOnTiles c3 then do {
            r0 \<leftarrow> getDimSize (resTy dot) 0;
            r1 \<leftarrow> getDimSize (resTy dot) 1;
            if tilesInBlockM c3 * tileM c3 < r0 \<or> tilesInBlockN c3 * tileN c3 < r1
            then Some (True, c3\<lparr>keepAccOnTiles := False, keepAccInBuf := True\<rparr>)
            else Some (True, findOutputBuffer (getResValueForLoopCarriedAcc dot) c3)
          }
          else Some (True, findOutputBuffer (resultUsers dot) c3)
        }
      })"

text \<open>
  The states the halving loop passes through, the loop's entry state first.  It has the
  recursion of \<open>accBlocksLoop\<close>, and the last state is the loop's result.
\<close>

function accBlocksTrace :: "int \<Rightarrow> int \<Rightarrow> (int \<times> int) list" where
  "accBlocksTrace accBlocksM accBlocksN =
   (accBlocksM, accBlocksN) #
   (if mulInt64 accBlocksM accBlocksN > 4 then
      (if accBlocksM > accBlocksN then accBlocksTrace (accBlocksM sdiv 2) accBlocksN
       else accBlocksTrace accBlocksM (accBlocksN sdiv 2))
    else [])"
  by pat_completeness auto

termination accBlocksTrace
proof (relation "measure (\<lambda>(a, b). nat (\<bar>a\<bar> + \<bar>b\<bar>))")
  have halve: "\<bar>a sdiv 2\<bar> < \<bar>a\<bar>" if "a \<noteq> 0" for a :: int
  proof -
    from that have "0 < \<bar>a\<bar>" by simp
    then have "\<bar>a\<bar> div 2 < \<bar>a\<bar>" by arith
    moreover have "\<bar>a sdiv 2\<bar> = \<bar>a\<bar> div 2"
      by (simp add: signed_divide_int_def abs_mult abs_sgn_eq that)
    ultimately show ?thesis by simp
  qed
  show "wf (measure (\<lambda>(a, b). nat (\<bar>a\<bar> + \<bar>b\<bar>)))" by simp
  show "((accBlocksM sdiv 2, accBlocksN), (accBlocksM, accBlocksN))
          \<in> measure (\<lambda>(a, b). nat (\<bar>a\<bar> + \<bar>b\<bar>))"
    if "4 < mulInt64 accBlocksM accBlocksN" for accBlocksM accBlocksN :: int
  proof -
    from that have "accBlocksM \<noteq> 0" by (auto simp: mulInt64_def toInt64_def)
    then show ?thesis using halve [of accBlocksM] by simp
  qed
  show "((accBlocksM, accBlocksN sdiv 2), (accBlocksM, accBlocksN))
          \<in> measure (\<lambda>(a, b). nat (\<bar>a\<bar> + \<bar>b\<bar>))"
    if "4 < mulInt64 accBlocksM accBlocksN" for accBlocksM accBlocksN :: int
  proof -
    from that have "accBlocksN \<noteq> 0" by (auto simp: mulInt64_def toInt64_def)
    then show ?thesis using halve [of accBlocksN] by simp
  qed
qed

declare accBlocksTrace.simps [simp del]

text \<open>
  The product of the two extents of a loop state as an integer, and the 64-bit value of the
  product, which is what the loop tests.
\<close>

definition blockProduct :: "int \<times> int \<Rightarrow> int" where
  "blockProduct s = fst s * snd s"

definition blockProduct64 :: "int \<times> int \<Rightarrow> int" where
  "blockProduct64 s = mulInt64 (fst s) (snd s)"

section \<open>The size planner in the words of the specification\<close>

text \<open>
  The halving rule as a relation between the initial and the final block extents, on natural
  numbers: stop when the product is at most 4, else halve the larger extent.  In
  \<open>halving\<close> a tie halves the N side; in \<open>halvingTiesM\<close> a tie halves the M side.
\<close>

inductive halving :: "nat \<times> nat \<Rightarrow> nat \<times> nat \<Rightarrow> bool" where
  halving_stop: "a * b \<le> 4 \<Longrightarrow> halving (a, b) (a, b)"
| halving_M: "4 < a * b \<Longrightarrow> b < a \<Longrightarrow> halving (a div 2, b) r \<Longrightarrow> halving (a, b) r"
| halving_N: "4 < a * b \<Longrightarrow> a \<le> b \<Longrightarrow> halving (a, b div 2) r \<Longrightarrow> halving (a, b) r"

inductive halvingTiesM :: "nat \<times> nat \<Rightarrow> nat \<times> nat \<Rightarrow> bool" where
  tiesM_stop: "a * b \<le> 4 \<Longrightarrow> halvingTiesM (a, b) (a, b)"
| tiesM_M: "4 < a * b \<Longrightarrow> b \<le> a \<Longrightarrow> halvingTiesM (a div 2, b) r \<Longrightarrow> halvingTiesM (a, b) r"
| tiesM_N: "4 < a * b \<Longrightarrow> a < b \<Longrightarrow> halvingTiesM (a, b div 2) r \<Longrightarrow> halvingTiesM (a, b) r"

text \<open>
  The common tile input type of two floating-point inputs in the words of the specification:
  two 16-bit inputs must agree, one 16-bit input decides, and two narrower inputs go to
  brain-float when it is supported and to plain 16-bit float otherwise.  \<open>capabilityFor\<close> is
  the capability flag that a 16-bit type requires.
\<close>

definition commonInputType :: "ElemType \<Rightarrow> ElemType \<Rightarrow> bool \<Rightarrow> ElemType option" where
  "commonInputType lhsElemTy rhsElemTy supportBf16 =
   (if getIntOrFloatBitWidth lhsElemTy = 16 \<and> getIntOrFloatBitWidth rhsElemTy = 16 then
      (if lhsElemTy = rhsElemTy then Some lhsElemTy else None)
    else if getIntOrFloatBitWidth lhsElemTy = 16 then Some lhsElemTy
    else if getIntOrFloatBitWidth rhsElemTy = 16 then Some rhsElemTy
    else if supportBf16 then Some (FloatType BFloat16)
    else Some (FloatType Float16))"

definition capabilityFor :: "ElemType \<Rightarrow> bool \<Rightarrow> bool \<Rightarrow> bool" where
  "capabilityFor ty supportFp16 supportBf16 =
   (if ty = FloatType Float16 then supportFp16
    else if ty = FloatType BFloat16 then supportBf16
    else True)"

section \<open>Packing rows for the multiply\<close>

text \<open>
  \<open>interleaveAndStore\<close> emits extract, interleave and store operations.  The model is what the
  emitted operations compute: the vector is the list of its rows, the buffer is the list of
  its rows, \<open>op_extract\<close> takes a row, \<open>op_interleave\<close> alternates the elements of two
  vectors of the same length, and \<open>op_store\<close> writes a row of the buffer.  An extract or a
  store out of range is a failure.
\<close>

fun op_interleave :: "'a list \<Rightarrow> 'a list \<Rightarrow> 'a list" where
  "op_interleave (x # xs) (y # ys) = x # y # op_interleave xs ys"
| "op_interleave xs ys = []"

definition op_extract :: "'a list list \<Rightarrow> nat \<Rightarrow> 'a list option" where
  "op_extract val i = (if i < length val then Some (val ! i) else None)"

definition op_store :: "'a list \<Rightarrow> 'a list list \<Rightarrow> nat \<Rightarrow> 'a list list option" where
  "op_store v buf idx = (if idx < length buf then Some (buf[idx := v]) else None)"

text \<open>The two rows that the last interleave of a group merges.\<close>

definition groupRows :: "nat \<Rightarrow> 'a list list \<Rightarrow> nat \<Rightarrow> ('a list \<times> 'a list) option" where
  "groupRows rowsPerGroup val i =
   (if rowsPerGroup = 2 then
      (case op_extract val i of None \<Rightarrow> None
       | Some r1 \<Rightarrow>
           (case op_extract val (i + 1) of None \<Rightarrow> None
            | Some r2 \<Rightarrow> Some (r1, r2)))
    else
      (case op_extract val i of None \<Rightarrow> None
       | Some ra \<Rightarrow>
           (case op_extract val (i + 2) of None \<Rightarrow> None
            | Some rb \<Rightarrow>
                (case op_extract val (i + 1) of None \<Rightarrow> None
                 | Some rc \<Rightarrow>
                     (case op_extract val (i + 3) of None \<Rightarrow> None
                      | Some rd \<Rightarrow> Some (op_interleave ra rb, op_interleave rc rd))))))"

text \<open>
  The loop \<open>for (i = 0; i < rows; i += rowsPerGroup)\<close>, entered at \<open>i\<close>.  With a step of 0
  it would not end; the assertion before the loop excludes that.
\<close>

function interleaveLoop ::
  "nat \<Rightarrow> nat \<Rightarrow> 'a list list \<Rightarrow> 'a list list \<Rightarrow> 'a list list option" where
  "interleaveLoop rowsPerGroup i val buf =
   (if rowsPerGroup = 0 then None
    else if i < length val then
      (case groupRows rowsPerGroup val i of None \<Rightarrow> None
       | Some (row1, row2) \<Rightarrow>
           (case op_store (op_interleave row1 row2) buf (i div rowsPerGroup) of None \<Rightarrow> None
            | Some buf' \<Rightarrow> interleaveLoop rowsPerGroup (i + rowsPerGroup) val buf'))
    else Some buf)"
  by pat_completeness auto

termination interleaveLoop
  by (relation "measure (\<lambda>(rowsPerGroup, i, val, buf). length val - i)") auto

declare interleaveLoop.simps [simp del]

definition interleaveAndStore ::
  "ElemType \<Rightarrow> 'a list list \<Rightarrow> 'a list list \<Rightarrow> 'a list list option" where
  "interleaveAndStore elemTy val buf =
   (if getIntOrFloatBitWidth elemTy = 0 then None
    else
      let rowsPerGroup = 32 div getIntOrFloatBitWidth elemTy
      in if \<not> (rowsPerGroup = 2 \<or> rowsPerGroup = 4) then None
         else if length val mod rowsPerGroup \<noteq> 0 then None
         else interleaveLoop rowsPerGroup 0 val buf)"

text \<open>
  Unpacking, in the words of the specification: lane \<open>j\<close> of a packed row is every
  \<open>rowsPerGroup\<close>-th element from position \<open>j\<close> on, and a packed row unpacks to its lanes
  \<open>0 .. rowsPerGroup - 1\<close>, in this order.
\<close>

definition lane :: "nat \<Rightarrow> nat \<Rightarrow> 'a list \<Rightarrow> 'a list" where
  "lane rowsPerGroup j packedRow =
     map (\<lambda>c. packedRow ! (c * rowsPerGroup + j)) [0..<length packedRow div rowsPerGroup]"

definition unpackRows :: "nat \<Rightarrow> 'a list list \<Rightarrow> 'a list list" where
  "unpackRows rowsPerGroup packed =
     concat (map (\<lambda>packedRow. map (\<lambda>j. lane rowsPerGroup j packedRow) [0..<rowsPerGroup])
       packed)"

section \<open>Tile code generation\<close>

text \<open>
  The rewriter is the sequence of the tile operations created so far, in creation order,
  and the next unused value number.  The insertion point is not modelled.  \<open>shiftIndex\<close>
  belongs to the common helpers of the dot conversions; an index it returns is kept as the
  term \<open>ShiftIndex index offset\<close>.
\<close>

record TileType =
  tileShape :: "int list"
  tileElementType :: ElemType

datatype IndexExpr = IndexValue Value | ShiftIndex Value int

datatype AmxOp =
  TileZeroOp TileType
| TileLoadOp TileType Value "IndexExpr list"
| TileStoreOp Value "IndexExpr list" Value
| TileMulIOp TileType Value Value Value
| TileMulFOp TileType Value Value Value

record Rewriter =
  created :: "AmxOp list"
  nextValue :: Value

definition createValue :: "AmxOp \<Rightarrow> Rewriter \<Rightarrow> Value \<times> Rewriter" where
  "createValue operation rw =
     (nextValue rw, \<lparr>created = created rw @ [operation], nextValue = Suc (nextValue rw)\<rparr>)"

definition createOp :: "AmxOp \<Rightarrow> Rewriter \<Rightarrow> Rewriter" where
  "createOp operation rw = rw\<lparr>created := created rw @ [operation]\<rparr>"

fun isTileMulI :: "AmxOp \<Rightarrow> bool" where
  "isTileMulI (TileMulIOp ty l r a) = True"
| "isTileMulI operation = False"

fun isTileMulF :: "AmxOp \<Rightarrow> bool" where
  "isTileMulF (TileMulFOp ty l r a) = True"
| "isTileMulF operation = False"

definition isTileMul :: "AmxOp \<Rightarrow> bool" where
  "isTileMul operation = (isTileMulI operation \<or> isTileMulF operation)"

text \<open>A counted loop \<open>for (i = 0; i < n; ++i)\<close> runs its body over \<open>[0..<nat n]\<close>.\<close>

fun forLoop :: "nat list \<Rightarrow> (nat \<Rightarrow> 's \<Rightarrow> 's option) \<Rightarrow> 's \<Rightarrow> 's option" where
  "forLoop [] body s = Some s"
| "forLoop (i # is) body s = (case body i s of None \<Rightarrow> None | Some s' \<Rightarrow> forLoop is body s')"

definition shiftIndices ::
  "Value list \<Rightarrow> TileType \<Rightarrow> int \<Rightarrow> int \<Rightarrow> int \<Rightarrow> int \<Rightarrow> int \<Rightarrow> int \<Rightarrow> IndexExpr list option"
  where
  "shiftIndices idxs tileTy tilesInBlockM' tilesInBlockN' blockM blockN tileM' tileN' =
   do {
     dim0 \<leftarrow> dimAt (tileShape tileTy) 0;
     dim1 \<leftarrow> dimAt (tileShape tileTy) 1;
     if length idxs < 2 then None
     else
       let blockOffsM = blockM * tilesInBlockM' * dim0;
           blockOffsN = blockN * tilesInBlockN' * dim1;
           tileOffsM = blockOffsM + tileM' * dim0;
           tileOffsN = blockOffsN + tileN' * dim1
       in Some (map IndexValue (take (length idxs - 2) idxs) @
                [ShiftIndex (idxs ! (length idxs - 2)) tileOffsM,
                 ShiftIndex (idxs ! (length idxs - 1)) tileOffsN])
   }"

definition loadTile ::
  "TileType \<Rightarrow> MemBuffer \<Rightarrow> int \<Rightarrow> int \<Rightarrow> int \<Rightarrow> int \<Rightarrow> int \<Rightarrow> int \<Rightarrow> Rewriter \<Rightarrow>
   (Value \<times> Rewriter) option" where
  "loadTile tileTy buf tilesInBlockM' tilesInBlockN' blockM blockN tileM' tileN' rw =
   do {
     idxs \<leftarrow> shiftIndices (indices buf) tileTy tilesInBlockM' tilesInBlockN' blockM blockN
               tileM' tileN';
     mem \<leftarrow> memRef buf;
     Some (createValue (TileLoadOp tileTy mem idxs) rw)
   }"

definition storeTile ::
  "TileType \<Rightarrow> Value \<Rightarrow> MemBuffer \<Rightarrow> int \<Rightarrow> int \<Rightarrow> int \<Rightarrow> int \<Rightarrow> int \<Rightarrow> int \<Rightarrow> Rewriter \<Rightarrow>
   Rewriter option" where
  "storeTile tileTy val buf tilesInBlockM' tilesInBlockN' blockM blockN tileM' tileN' rw =
   do {
     idxs \<leftarrow> shiftIndices (indices buf) tileTy tilesInBlockM' tilesInBlockN' blockM blockN
               tileM' tileN';
     mem \<leftarrow> memRef buf;
     Some (createOp (TileStoreOp mem idxs val) rw)
   }"

text \<open>
  \<open>loadBlockTiles\<close>: \<open>res\<close> starts as \<open>tilesInBlockM\<close> empty rows (a negative size is a
  failure), and row \<open>m\<close> receives one tile per \<open>n\<close>: a tile load when the buffer has memory,
  a zero tile otherwise.
\<close>

definition loadBlockTile ::
  "TileType \<Rightarrow> MemBuffer \<Rightarrow> int \<Rightarrow> int \<Rightarrow> int \<Rightarrow> int \<Rightarrow> nat \<Rightarrow> nat \<Rightarrow>
   Value list list \<times> Rewriter \<Rightarrow> (Value list list \<times> Rewriter) option" where
  "loadBlockTile tileTy buf tilesInBlockM' tilesInBlockN' blockM blockN m n s =
   (case s of (res, rw) \<Rightarrow>
      (case (if memRef buf \<noteq> None
             then loadTile tileTy buf tilesInBlockM' tilesInBlockN' blockM blockN
                    (int m) (int n) rw
             else Some (createValue (TileZeroOp tileTy) rw)) of
         None \<Rightarrow> None
       | Some (tile, rw') \<Rightarrow>
           if m < length res then Some (res[m := res ! m @ [tile]], rw') else None))"

definition loadBlockTiles ::
  "TileType \<Rightarrow> MemBuffer \<Rightarrow> int \<Rightarrow> int \<Rightarrow> int \<Rightarrow> int \<Rightarrow> Rewriter \<Rightarrow>
   (Value list list \<times> Rewriter) option" where
  "loadBlockTiles tileTy buf tilesInBlockM' tilesInBlockN' blockM blockN rw =
   (if tilesInBlockM' < 0 then None
    else forLoop [0..<nat tilesInBlockM']
           (\<lambda>m. forLoop [0..<nat tilesInBlockN']
                  (loadBlockTile tileTy buf tilesInBlockM' tilesInBlockN' blockM blockN m))
           (replicate (nat tilesInBlockM') [], rw))"

definition tileAt :: "Value list list \<Rightarrow> nat \<Rightarrow> nat \<Rightarrow> Value option" where
  "tileAt tiles m n =
     (if m < length tiles \<and> n < length (tiles ! m) then Some (tiles ! m ! n) else None)"

definition setTileAt :: "Value list list \<Rightarrow> nat \<Rightarrow> nat \<Rightarrow> Value \<Rightarrow> Value list list option"
  where
  "setTileAt tiles m n v =
     (if m < length tiles \<and> n < length (tiles ! m)
      then Some (tiles[m := (tiles ! m)[n := v]]) else None)"

text \<open>
  The body of the innermost loop of both multiply functions: with the two input tiles in
  hand, create the multiply for accumulator tile \<open>(tileM, tileN)\<close>, the integer one for an
  integer accumulator tile type, put its result into \<open>accTiles\<close>, and store it if asked.
\<close>

definition multiplyTile ::
  "TileType \<Rightarrow> MemBuffer \<Rightarrow> int \<Rightarrow> int \<Rightarrow> int \<Rightarrow> int \<Rightarrow> bool \<Rightarrow> Value \<Rightarrow> Value \<Rightarrow>
   nat \<Rightarrow> nat \<Rightarrow> Value list list \<times> Rewriter \<Rightarrow> (Value list list \<times> Rewriter) option" where
  "multiplyTile accTileTy accBuf blockM blockN tilesInBlockM' tilesInBlockN' storeResult
     lhsTile rhsTile tileM' tileN' s =
   (case s of (accTiles, rw) \<Rightarrow>
      do {
        acc \<leftarrow> tileAt accTiles tileM' tileN';
        let (v, rw1) =
              (if isInteger (tileElementType accTileTy)
               then createValue (TileMulIOp accTileTy lhsTile rhsTile acc) rw
               else createValue (TileMulFOp accTileTy lhsTile rhsTile acc) rw);
        accTiles' \<leftarrow> setTileAt accTiles tileM' tileN' v;
        if storeResult then do {
          rw2 \<leftarrow> storeTile accTileTy v accBuf tilesInBlockM' tilesInBlockN' blockM blockN
                   (int tileM') (int tileN') rw1;
          Some (accTiles', rw2)
        }
        else Some (accTiles', rw1)
      })"

definition multiplyBlocksPreloadLhs ::
  "TileType \<Rightarrow> TileType \<Rightarrow> TileType \<Rightarrow> MemBuffer \<Rightarrow> MemBuffer \<Rightarrow> MemBuffer \<Rightarrow>
   int \<Rightarrow> int \<Rightarrow> int \<Rightarrow> int \<Rightarrow> int \<Rightarrow> Value list list \<Rightarrow> bool \<Rightarrow> Rewriter \<Rightarrow>
   (Value list list \<times> Rewriter) option" where
  "multiplyBlocksPreloadLhs lhsTileTy rhsTileTy accTileTy lhsBuf rhsBuf accBuf
     blockM blockN blockK tilesInBlockM' tilesInBlockN' accTiles storeResult rw =
   do {
     (lhsTiles, rw1) \<leftarrow> loadBlockTiles lhsTileTy lhsBuf tilesInBlockM' 1 blockM blockK rw;
     forLoop [0..<nat tilesInBlockN']
       (\<lambda>tileN' s. case s of (accTiles1, rw2) \<Rightarrow>
          do {
            (rhsTile, rw3) \<leftarrow> loadTile rhsTileTy rhsBuf 1 tilesInBlockN' blockK blockN
                                0 (int tileN') rw2;
            forLoop [0..<nat tilesInBlockM']
              (\<lambda>tileM' s'.
                 do {
                   lhsTile \<leftarrow> tileAt lhsTiles tileM' 0;
                   multiplyTile accTileTy accBuf blockM blockN tilesInBlockM' tilesInBlockN'
                     storeResult lhsTile rhsTile tileM' tileN' s'
                 })
              (accTiles1, rw3)
          })
       (accTiles, rw1)
   }"

definition multiplyBlocksPreloadRhs ::
  "TileType \<Rightarrow> TileType \<Rightarrow> TileType \<Rightarrow> MemBuffer \<Rightarrow> MemBuffer \<Rightarrow> MemBuffer \<Rightarrow>
   int \<Rightarrow> int \<Rightarrow> int \<Rightarrow> int \<Rightarrow> int \<Rightarrow> Value list list \<Rightarrow> bool \<Rightarrow> Rewriter \<Rightarrow>
   (Value list list \<times> Rewriter) option" where
  "multiplyBlocksPreloadRhs lhsTileTy rhsTileTy accTileTy lhsBuf rhsBuf accBuf
     blockM blockN blockK tilesInBlockM' tilesInBlockN' accTiles storeResult rw =
   do {
     (rhsTiles, rw1) \<leftarrow> loadBlockTiles rhsTileTy rhsBuf 1 tilesInBlockN' blockK blockN rw;
     forLoop [0..<nat tilesInBlockM']
       (\<lambda>tileM' s. case s of (accTiles1, rw2) \<Rightarrow>
          do {
            (lhsTile, rw3) \<leftarrow> loadTile lhsTileTy lhsBuf tilesInBlockM' 1 blockM blockK
                                (int tileM') 0 rw2;
            forLoop [0..<nat tilesInBlockN']
              (\<lambda>tileN' s'.
                 do {
                   rhsTile \<leftarrow> tileAt rhsTiles 0 tileN';
                   multiplyTile accTileTy accBuf blockM blockN tilesInBlockM' tilesInBlockN'
                     storeResult lhsTile rhsTile tileM' tileN' s'
                 })
              (accTiles1, rw3)
          })
       (accTiles, rw1)
   }"

text \<open>
  The tile types that \<open>convertCandidate\<close> builds for the LHS and for the accumulator.  The
  RHS tile type goes through \<open>getPackedLayoutType\<close> of the common helpers and is a parameter
  below.
\<close>

definition lhsTileType :: "AmxDotOpCandidate \<Rightarrow> TileType option" where
  "lhsTileType candidate =
     map_option (\<lambda>ty. \<lparr>tileShape = [tileM candidate, tileK candidate], tileElementType = ty\<rparr>)
       (lhsTileElemTy candidate)"

definition accTileType :: "AmxDotOpCandidate \<Rightarrow> TileType option" where
  "accTileType candidate =
     map_option (\<lambda>ty. \<lparr>tileShape = [tileM candidate, tileN candidate], tileElementType = ty\<rparr>)
       (accTileElemTy candidate)"

text \<open>
  One step \<open>blocK\<close> of the reduction loop of \<open>convertCandidate\<close> for the accumulator block
  \<open>(blockM, blockN)\<close>, and the body of the block loop nest: load the accumulator tiles of the
  block unless they are kept on tiles, then run the reduction loop.
\<close>

definition reductionStep ::
  "AmxDotOpCandidate \<Rightarrow> TileType \<Rightarrow> TileType \<Rightarrow> TileType \<Rightarrow> MemBuffer \<Rightarrow> MemBuffer \<Rightarrow>
   MemBuffer \<Rightarrow> int \<Rightarrow> int \<Rightarrow> int \<Rightarrow> nat \<Rightarrow> Value list list \<times> Rewriter \<Rightarrow>
   (Value list list \<times> Rewriter) option" where
  "reductionStep candidate lhsTileTy rhsTileTy accTileTy lhsBuf rhsBuf resBuf tilesInVectorK
     blockM blockN blocK s =
   (case s of (accTiles, rw) \<Rightarrow>
      let storeAcc = (\<not> keepAccOnTiles candidate \<and> int blocK = tilesInVectorK - 1)
      in if tilesInBlockM candidate \<le> tilesInBlockN candidate
         then multiplyBlocksPreloadLhs lhsTileTy rhsTileTy accTileTy lhsBuf rhsBuf resBuf
                blockM blockN (int blocK) (tilesInBlockM candidate) (tilesInBlockN candidate)
                accTiles storeAcc rw
         else multiplyBlocksPreloadRhs lhsTileTy rhsTileTy accTileTy lhsBuf rhsBuf resBuf
                blockM blockN (int blocK) (tilesInBlockM candidate) (tilesInBlockN candidate)
                accTiles storeAcc rw)"

definition convertBlock ::
  "AmxDotOpCandidate \<Rightarrow> TileType \<Rightarrow> TileType \<Rightarrow> TileType \<Rightarrow> MemBuffer \<Rightarrow> MemBuffer \<Rightarrow>
   MemBuffer \<Rightarrow> MemBuffer \<Rightarrow> int \<Rightarrow> int \<Rightarrow> int \<Rightarrow> Value list list \<times> Rewriter \<Rightarrow>
   (Value list list \<times> Rewriter) option" where
  "convertBlock candidate lhsTileTy rhsTileTy accTileTy lhsBuf rhsBuf accBuf resBuf
     tilesInVectorK blockM blockN s =
   (case s of (accTiles, rw) \<Rightarrow>
      do {
        s1 \<leftarrow> (if \<not> keepAccOnTiles candidate
               then loadBlockTiles accTileTy accBuf (tilesInBlockM candidate)
                      (tilesInBlockN candidate) blockM blockN rw
               else Some (accTiles, rw));
        forLoop [0..<nat tilesInVectorK]
          (reductionStep candidate lhsTileTy rhsTileTy accTileTy lhsBuf rhsBuf resBuf
             tilesInVectorK blockM blockN)
          s1
      })"

text \<open>
  The part of \<open>convertCandidate\<close> from the declaration of \<open>accTiles\<close> to the end of the block
  loop nest.  The buffers come from the buffer preparation before it, which rests on the common
  helpers; they are parameters.  A division by zero is a failure.
\<close>

definition convertCandidateTiles ::
  "AmxDotOpCandidate \<Rightarrow> TileType \<Rightarrow> MemBuffer \<Rightarrow> MemBuffer \<Rightarrow> MemBuffer \<Rightarrow> MemBuffer \<Rightarrow>
   Rewriter \<Rightarrow> (Value list list \<times> Rewriter) option" where
  "convertCandidateTiles candidate rhsTileTy lhsBuf rhsBuf accBuf resBuf rw =
   do {
     dot \<leftarrow> op candidate;
     lhsTileTy \<leftarrow> lhsTileType candidate;
     accTileTy \<leftarrow> accTileType candidate;
     s0 \<leftarrow> (if keepAccOnTiles candidate
            then loadBlockTiles accTileTy accBuf (tilesInBlockM candidate)
                   (tilesInBlockN candidate) 0 0 rw
            else Some ([], rw));
     a0 \<leftarrow> getDimSize (accTy dot) 0;
     a1 \<leftarrow> getDimSize (accTy dot) 1;
     k \<leftarrow> getDimSize (lhsTy dot) 1;
     if tileM candidate = 0 \<or> tilesInBlockM candidate = 0 \<or> tileN candidate = 0 \<or>
        tilesInBlockN candidate = 0 \<or> tileK candidate = 0
     then None
     else
       let blocksInAccM = a0 sdiv tileM candidate sdiv tilesInBlockM candidate;
           blocksInAccN = a1 sdiv tileN candidate sdiv tilesInBlockN candidate;
           tilesInVectorK = k sdiv tileK candidate
       in forLoop [0..<nat blocksInAccM]
            (\<lambda>blockM. forLoop [0..<nat blocksInAccN]
               (\<lambda>blockN. convertBlock candidate lhsTileTy rhsTileTy accTileTy lhsBuf rhsBuf
                            accBuf resBuf tilesInVectorK (int blockM) (int blockN)))
            s0
   }"

section \<open>The pass\<close>

text \<open>
  The walk visits the dot operations of the unit in order and keeps the descriptor of each
  one that \<open>isAmxCandidate\<close> accepts; every descriptor starts default-initialised.
\<close>

fun collectCandidates ::
  "AmxDotOpCandidate \<Rightarrow> bool \<Rightarrow> bool \<Rightarrow> bool \<Rightarrow> DotOp list \<Rightarrow> AmxDotOpCandidate list option"
  where
  "collectCandidates fresh convertInt8 convertFp16 convertBf16 [] = Some []"
| "collectCandidates fresh convertInt8 convertFp16 convertBf16 (dot # dots) =
   (case isAmxCandidate dot convertInt8 convertFp16 convertBf16 fresh of
      None \<Rightarrow> None
    | Some (accepted, candidate) \<Rightarrow>
        (case collectCandidates fresh convertInt8 convertFp16 convertBf16 dots of
           None \<Rightarrow> None
         | Some candidates \<Rightarrow>
             Some (if accepted then candidate # candidates else candidates)))"

text \<open>
  \<open>runOnOperation\<close> over a unit of any representation \<open>'ir\<close>: \<open>walk\<close> gives the dot
  operations of the unit and \<open>convert\<close> is the rewrite of the unit by \<open>convertCandidate\<close>
  for one descriptor.  The result is the list of collected candidates and the unit after
  the pass.
\<close>

definition runOnOperation ::
  "('ir \<Rightarrow> DotOp list) \<Rightarrow> (AmxDotOpCandidate \<Rightarrow> 'ir \<Rightarrow> 'ir) \<Rightarrow> AmxDotOpCandidate \<Rightarrow>
   bool \<Rightarrow> bool \<Rightarrow> bool \<Rightarrow> 'ir \<Rightarrow> (AmxDotOpCandidate list \<times> 'ir) option" where
  "runOnOperation walk convert fresh convertInt8 convertFp16 convertBf16 unit =
   (if \<not> convertInt8 \<and> \<not> convertFp16 \<and> \<not> convertBf16 then Some ([], unit)
    else
      (case collectCandidates fresh convertInt8 convertFp16 convertBf16 (walk unit) of
         None \<Rightarrow> None
       | Some candidates \<Rightarrow> Some (candidates, fold convert candidates unit)))"

section \<open>Example operations\<close>

text \<open>
  A dot operation \<open>M\<times>K\<close> by \<open>K\<times>N\<close> with the given element types, whose result has no
  users.
\<close>

definition exampleDot ::
  "ElemType \<Rightarrow> ElemType \<Rightarrow> ElemType \<Rightarrow> int \<Rightarrow> int \<Rightarrow> int \<Rightarrow> bool \<Rightarrow> DotOp" where
  "exampleDot lhsElemTy rhsElemTy accElemTy m n k carried =
     \<lparr>lhsTy = \<lparr>shape = [m, k], elementType = lhsElemTy\<rparr>,
      rhsTy = \<lparr>shape = [k, n], elementType = rhsElemTy\<rparr>,
      accTy = \<lparr>shape = [m, n], elementType = accElemTy\<rparr>,
      isLoopCarriedAcc = carried, resultUsers = [], loopResultUsers = []\<rparr>"

definition int8Dot :: "int \<Rightarrow> int \<Rightarrow> int \<Rightarrow> bool \<Rightarrow> DotOp" where
  "int8Dot m n k carried =
     exampleDot (IntegerType 8) (IntegerType 8) (IntegerType 32) m n k carried"

definition exampleBuffer :: "Value \<Rightarrow> MemBuffer" where
  "exampleBuffer mem = \<lparr>memRef = Some mem, indices = [0, 0], step = [], vnni = False\<rparr>"

definition exampleCandidate ::
  "DotOp \<Rightarrow> ElemType \<Rightarrow> ElemType \<Rightarrow> int \<Rightarrow> int \<Rightarrow> int \<Rightarrow> int \<Rightarrow> int \<Rightarrow> bool \<Rightarrow> bool \<Rightarrow>
   AmxDotOpCandidate" where
  "exampleCandidate dot inTy accTy' tm tn tk bm bn onTiles inBuf =
     \<lparr>op = Some dot, lhsTileElemTy = Some inTy, rhsTileElemTy = Some inTy,
      accTileElemTy = Some accTy', tileM = tm, tileN = tn, tileK = tk,
      tilesInBlockM = bm, tilesInBlockN = bn, keepAccOnTiles = onTiles, keepAccInBuf = inBuf,
      outBuf = emptyMemBuffer, origStore = None\<rparr>"

text \<open>
  A unit that is the list of its dot operations, and a conversion that takes the converted
  operation out of the unit.
\<close>

definition removeConverted :: "AmxDotOpCandidate \<Rightarrow> DotOp list \<Rightarrow> DotOp list" where
  "removeConverted candidate unit = filter (\<lambda>dot. op candidate \<noteq> Some dot) unit"

definition dotsOf :: "DotOp list \<Rightarrow> DotOp list" where
  "dotsOf unit = unit"

section \<open>Auxiliary predicates\<close>

text \<open>
  The sizes that the analysis leaves in the descriptor of an accepted operation, read off
  \<open>checkElemTypes\<close>, \<open>checkInputShapes\<close> and \<open>setupBlockAndTileSizes\<close>.
\<close>

definition plannedSizes :: "DotOp \<Rightarrow> AmxDotOpCandidate \<Rightarrow> bool" where
  "plannedSizes dot c =
   (let m = shape (resTy dot) ! 0; n = shape (resTy dot) ! 1; k = shape (lhsTy dot) ! 1
    in (\<exists>ty. lhsTileElemTy c = Some ty \<and>
          (getIntOrFloatBitWidth ty = 8 \<or> getIntOrFloatBitWidth ty = 16) \<and>
          tileK c = min k (512 sdiv int (getIntOrFloatBitWidth ty))) \<and>
       tileM c = min m 16 \<and> tileN c = min n 16 \<and>
       tilesInBlockM c = fst (accBlocksLoop (m sdiv min m 16) (n sdiv min n 16)) \<and>
       tilesInBlockN c = snd (accBlocksLoop (m sdiv min m 16) (n sdiv min n 16)) \<and>
       m \<noteq> 0 \<and> 8 \<le> n \<and> 8 \<le> k \<and> 2 \<le> length (shape (resTy dot)) \<and>
       length (shape (lhsTy dot)) = 2 \<and> op c = Some dot)"

text \<open>
  The packed row that \<open>interleaveAndStore\<close> writes for group \<open>g\<close>, and the rows of the
  vector that belong to group \<open>g\<close>.
\<close>

definition packedGroup :: "nat \<Rightarrow> 'a list list \<Rightarrow> nat \<Rightarrow> 'a list" where
  "packedGroup rowsPerGroup val g =
   (if rowsPerGroup = 2 then op_interleave (val ! (2 * g)) (val ! (2 * g + 1))
    else op_interleave (op_interleave (val ! (4 * g)) (val ! (4 * g + 2)))
           (op_interleave (val ! (4 * g + 1)) (val ! (4 * g + 3))))"

definition rowGroup :: "nat \<Rightarrow> 'a list list \<Rightarrow> nat \<Rightarrow> 'a list list" where
  "rowGroup rowsPerGroup val g = map (\<lambda>j. val ! (g * rowsPerGroup + j)) [0..<rowsPerGroup]"


text \<open>
  \<open>emits isInt k rw rw'\<close>: from \<open>rw\<close> to \<open>rw'\<close> the rewriter has only created operations,
  \<open>k\<close> of them are tile multiplies, and every one of these is the integer multiply if
  \<open>isInt\<close> and the floating-point multiply otherwise.  \<open>tileGrid m n tiles\<close>: \<open>tiles\<close> has
  \<open>m\<close> rows of \<open>n\<close> tiles.  A tile type of rank 2 and a buffer with memory and at least
  two indices are what \<open>shiftIndices\<close>, \<open>loadTile\<close> and \<open>storeTile\<close> need to succeed.
\<close>

definition emits :: "bool \<Rightarrow> nat \<Rightarrow> Rewriter \<Rightarrow> Rewriter \<Rightarrow> bool" where
  "emits isInt k rw rw' =
   (\<exists>new. created rw' = created rw @ new \<and> length (filter isTileMul new) = k \<and>
      (\<forall>operation \<in> set new. isTileMul operation \<longrightarrow>
         (if isInt then isTileMulI operation else isTileMulF operation)))"

definition tileGrid :: "nat \<Rightarrow> nat \<Rightarrow> Value list list \<Rightarrow> bool" where
  "tileGrid m n tiles = (length tiles = m \<and> (\<forall>row \<in> set tiles. length row = n))"

definition rank2 :: "TileType \<Rightarrow> bool" where
  "rank2 tileTy = (2 \<le> length (tileShape tileTy))"

definition usableBuffer :: "MemBuffer \<Rightarrow> bool" where
  "usableBuffer buf = (memRef buf \<noteq> None \<and> 2 \<le> length (indices buf))"

section \<open>Facts about the analysis\<close>

lemmas analysis_defs =
  isAmxCandidate_def checkElemTypes_def checkInputShapes_def setupBlockAndTileSizes_def
  findOutputBuffer_def getResValueForLoopCarriedAcc_def getRank_def getDimSize_def dimAt_def
  isF16_def isBF16_def defaultCandidate_def emptyMemBuffer_def exampleDot_def int8Dot_def
  exampleCandidate_def Let_def accBlocksLoop.simps mulInt64_def toInt64_def resTy_def

lemma sdiv_nonneg_eq_div: "0 \<le> (a::int) \<Longrightarrow> 0 \<le> b \<Longrightarrow> a sdiv b = a div b"
  by (simp add: signed_divide_int_def sgn_if)

lemma sdiv_two_ge_one: "2 \<le> (a::int) \<Longrightarrow> 1 \<le> a sdiv 2"
  by (simp add: sdiv_nonneg_eq_div)

lemma toInt64_small: "- (2 ^ 63) \<le> x \<Longrightarrow> x < 2 ^ 63 \<Longrightarrow> toInt64 x = x"
  by (simp add: toInt64_def)

text \<open>When the loop goes on with extents that are at least 1, their product is above 4.\<close>

lemma guard_product:
  assumes "1 \<le> a" and "1 \<le> b" and "4 < mulInt64 a b"
  shows "4 < a * b"
proof (rule ccontr)
  assume "\<not> 4 < a * b"
  moreover from assms(1,2) have "0 \<le> a * b" by simp
  ultimately have "toInt64 (a * b) = a * b" by (intro toInt64_small) simp_all
  with assms(3) \<open>\<not> 4 < a * b\<close> show False by (simp add: mulInt64_def)
qed

lemma guard_no_overflow:
  assumes "0 \<le> a" and "0 \<le> b" and "a * b < 2 ^ 63"
  shows "mulInt64 a b = a * b"
proof -
  from assms(1,2) have "0 \<le> a * b" by simp
  then have "- (2 ^ 63) \<le> a * b" by simp
  then have "toInt64 (a * b) = a * b" using assms(3) by (rule toInt64_small)
  then show ?thesis by (simp add: mulInt64_def)
qed

text \<open>At the end of the loop the 64-bit product is at most 4.\<close>

lemma accBlocksLoop_exit: "mulInt64 (fst (accBlocksLoop a b)) (snd (accBlocksLoop a b)) \<le> 4"
proof (induction a b rule: accBlocksLoop.induct)
  case (1 a b)
  show ?case
  proof (cases "4 < mulInt64 a b")
    case True
    with "1" show ?thesis by (cases "b < a") (simp_all add: accBlocksLoop.simps [of a b])
  next
    case False
    then show ?thesis by (simp add: accBlocksLoop.simps [of a b])
  qed
qed

lemma tie_or_smaller_ge_two:
  assumes "4 < a * b" and "1 \<le> a" and "a \<le> b"
  shows "2 \<le> (b::int)"
proof (rule ccontr)
  assume "\<not> 2 \<le> b"
  with assms have "a = 1" and "b = 1" by auto
  with assms show False by simp
qed

lemma accBlocksLoop_positive:
  "1 \<le> a \<Longrightarrow> 1 \<le> b \<Longrightarrow> 1 \<le> fst (accBlocksLoop a b) \<and> 1 \<le> snd (accBlocksLoop a b)"
proof (induction a b rule: accBlocksLoop.induct)
  case (1 a b)
  show ?case
  proof (cases "4 < mulInt64 a b")
    case False
    with "1.prems" show ?thesis by (simp add: accBlocksLoop.simps [of a b])
  next
    case True
    with "1.prems" have prod: "4 < a * b" by (intro guard_product)
    show ?thesis
    proof (cases "b < a")
      case True
      with "1.prems" have "1 \<le> a sdiv 2" by (intro sdiv_two_ge_one) simp
      with "1.IH"(1) \<open>4 < mulInt64 a b\<close> True "1.prems" show ?thesis
        by (simp add: accBlocksLoop.simps [of a b])
    next
      case False
      with prod "1.prems" have "2 \<le> b"
        by (intro tie_or_smaller_ge_two [of a b]) simp_all
      then have "1 \<le> b sdiv 2" by (rule sdiv_two_ge_one)
      with "1.IH"(2) \<open>4 < mulInt64 a b\<close> False "1.prems" show ?thesis
        by (simp add: accBlocksLoop.simps [of a b])
    qed
  qed
qed

lemma accBlocksLoop_nonneg:
  "0 \<le> a \<Longrightarrow> 0 \<le> b \<Longrightarrow> 0 \<le> fst (accBlocksLoop a b) \<and> 0 \<le> snd (accBlocksLoop a b)"
proof (induction a b rule: accBlocksLoop.induct)
  case (1 a b)
  have half: "0 \<le> a sdiv 2" "0 \<le> b sdiv 2"
    using "1.prems" by (simp_all add: sdiv_nonneg_eq_div)
  show ?case
  proof (cases "4 < mulInt64 a b")
    case False
    with "1.prems" show ?thesis by (simp add: accBlocksLoop.simps [of a b])
  next
    case True
    with "1.IH" "1.prems" half show ?thesis
      by (cases "b < a") (simp_all add: accBlocksLoop.simps [of a b])
  qed
qed

text \<open>
  When the product of the initial extents is a 64-bit value, the loop follows the halving
  rule and ends with a product of at most 4.
\<close>

lemma accBlocksLoop_halving:
  "0 \<le> a \<Longrightarrow> 0 \<le> b \<Longrightarrow> a * b < 2 ^ 63 \<Longrightarrow>
   halving (nat a, nat b) (nat (fst (accBlocksLoop a b)), nat (snd (accBlocksLoop a b))) \<and>
   0 \<le> fst (accBlocksLoop a b) \<and> 0 \<le> snd (accBlocksLoop a b) \<and>
   fst (accBlocksLoop a b) * snd (accBlocksLoop a b) \<le> 4"
proof (induction a b rule: accBlocksLoop.induct)
  case (1 a b)
  have prod: "int (nat a * nat b) = a * b" using "1.prems" by simp
  have guard: "mulInt64 a b = a * b" using "1.prems" by (intro guard_no_overflow)
  show ?case
  proof (cases "4 < a * b")
    case False
    then have "nat a * nat b \<le> 4" using prod by linarith
    with False "1.prems" show ?thesis
      by (simp add: accBlocksLoop.simps [of a b] guard halving_stop)
  next
    case True
    then have gt: "4 < nat a * nat b" using prod by linarith
    from True have g: "4 < mulInt64 a b" by (simp add: guard)
    show ?thesis
    proof (cases "b < a")
      case True
      have half: "nat (a sdiv 2) = nat a div 2" "0 \<le> a sdiv 2"
        using "1.prems" by (simp_all add: sdiv_nonneg_eq_div nat_div_distrib)
      have "a sdiv 2 \<le> a" using "1.prems" by (simp add: sdiv_nonneg_eq_div)
      then have "a sdiv 2 * b \<le> a * b" using "1.prems" by (intro mult_right_mono)
      with "1.prems" have small: "a sdiv 2 * b < 2 ^ 63" by linarith
      from "1.IH"(1) [OF g True half(2) "1.prems"(2) small]
      show ?thesis using True g gt "1.prems" half
        by (auto simp add: accBlocksLoop.simps [of a b] intro!: halving_M)
    next
      case False
      have half: "nat (b sdiv 2) = nat b div 2" "0 \<le> b sdiv 2"
        using "1.prems" by (simp_all add: sdiv_nonneg_eq_div nat_div_distrib)
      have "b sdiv 2 \<le> b" using "1.prems" by (simp add: sdiv_nonneg_eq_div)
      then have "a * (b sdiv 2) \<le> a * b" using "1.prems" by (intro mult_left_mono)
      with "1.prems" have small: "a * (b sdiv 2) < 2 ^ 63" by linarith
      from "1.IH"(2) [OF g False "1.prems"(1) half(2) small]
      show ?thesis using False g gt "1.prems" half
        by (auto simp add: accBlocksLoop.simps [of a b] intro!: halving_N)
    qed
  qed
qed

lemma float_width_16: "getWidth k = 16 \<Longrightarrow> k = Float16 \<or> k = BFloat16"
  by (cases k) simp_all

lemma checkElemTypes_accepted:
  assumes "checkElemTypes lhsElemTy rhsElemTy accElemTy resElemTy supportInt8 supportFp16
             supportBf16 c0 = (True, c1)"
  shows "keepAccInBuf c1 = keepAccInBuf c0 \<and>
         (\<exists>inTy. lhsTileElemTy c1 = Some inTy \<and>
            (getIntOrFloatBitWidth inTy = 8 \<or> getIntOrFloatBitWidth inTy = 16)) \<and>
         (\<exists>accTy'. accTileElemTy c1 = Some accTy' \<and> isInteger accTy' = isInteger lhsElemTy)"
proof (cases "isInteger lhsElemTy")
  case True
  with assms show ?thesis
    by (auto simp: checkElemTypes_def split: if_splits)
next
  case False
  then obtain kl where kl: "lhsElemTy = FloatType kl" by (cases lhsElemTy) simp_all
  show ?thesis
  proof (cases "isInteger rhsElemTy")
    case True
    with assms kl show ?thesis by (simp add: checkElemTypes_def)
  next
    case False
    then obtain kr where kr: "rhsElemTy = FloatType kr" by (cases rhsElemTy) simp_all
    from assms kl kr show ?thesis
      by (auto simp: checkElemTypes_def Let_def isF16_def isBF16_def
            split: if_splits dest: float_width_16)
  qed
qed

lemma checkInputShapes_accepted:
  assumes "checkInputShapes lhsT resT = Some True"
  shows "length (shape lhsT) = 2 \<and> 8 \<le> shape lhsT ! 0 \<and> 8 \<le> shape lhsT ! 1 \<and>
         2 \<le> length (shape resT) \<and> 8 \<le> shape resT ! 1"
  using assms
  by (auto simp: checkInputShapes_def getRank_def getDimSize_def dimAt_def
        split: if_splits bind_splits)

lemma setupBlockAndTileSizes_result:
  assumes "setupBlockAndTileSizes lhsShape resShape c1 = Some c2"
  shows "\<exists>ty. lhsTileElemTy c1 = Some ty \<and> getIntOrFloatBitWidth ty \<noteq> 0 \<and>
           2 \<le> length resShape \<and> 2 \<le> length lhsShape \<and>
           resShape ! 0 \<noteq> 0 \<and> resShape ! 1 \<noteq> 0 \<and>
           c2 = c1\<lparr>tileM := min (resShape ! 0) 16, tileN := min (resShape ! 1) 16,
                   tileK := min (lhsShape ! 1) (512 sdiv int (getIntOrFloatBitWidth ty)),
                   tilesInBlockM :=
                     fst (accBlocksLoop (resShape ! 0 sdiv min (resShape ! 0) 16)
                            (resShape ! 1 sdiv min (resShape ! 1) 16)),
                   tilesInBlockN :=
                     snd (accBlocksLoop (resShape ! 0 sdiv min (resShape ! 0) 16)
                            (resShape ! 1 sdiv min (resShape ! 1) 16))\<rparr>"
  using assms
  by (auto simp: setupBlockAndTileSizes_def dimAt_def Let_def
        split: if_splits bind_splits prod.splits)

lemma findOutputBuffer_keeps:
  "tileM (findOutputBuffer us c) = tileM c \<and> tileN (findOutputBuffer us c) = tileN c \<and>
   tileK (findOutputBuffer us c) = tileK c \<and>
   tilesInBlockM (findOutputBuffer us c) = tilesInBlockM c \<and>
   tilesInBlockN (findOutputBuffer us c) = tilesInBlockN c \<and>
   keepAccOnTiles (findOutputBuffer us c) = keepAccOnTiles c \<and>
   keepAccInBuf (findOutputBuffer us c) = keepAccInBuf c \<and>
   lhsTileElemTy (findOutputBuffer us c) = lhsTileElemTy c \<and>
   rhsTileElemTy (findOutputBuffer us c) = rhsTileElemTy c \<and>
   accTileElemTy (findOutputBuffer us c) = accTileElemTy c \<and>
   op (findOutputBuffer us c) = op c"
  by (simp add: findOutputBuffer_def split: list.splits Operation.splits)

text \<open>
  The shape of an accepted run of \<open>isAmxCandidate\<close>: the sizes are planned, and the two
  accumulator flags are set from \<open>isLoopCarriedAcc\<close> and the fit test on the descriptor
  \<open>c3\<close> that the size planner returned.
\<close>

lemma isAmxCandidate_accepted:
  assumes acc: "isAmxCandidate dot supportInt8 supportFp16 supportBf16 c0 = Some (True, c)"
  shows "plannedSizes dot c \<and>
         (\<exists>accTy'. accTileElemTy c = Some accTy' \<and>
            isInteger accTy' = isInteger (elementType (lhsTy dot))) \<and>
         (\<exists>c3. plannedSizes dot c3 \<and> keepAccOnTiles c3 = isLoopCarriedAcc dot \<and>
                keepAccInBuf c3 = keepAccInBuf c0 \<and>
           (if isLoopCarriedAcc dot
            then (if tilesInBlockM c3 * tileM c3 < shape (resTy dot) ! 0 \<or>
                     tilesInBlockN c3 * tileN c3 < shape (resTy dot) ! 1
                  then c = c3\<lparr>keepAccOnTiles := False, keepAccInBuf := True\<rparr>
                  else c = findOutputBuffer (getResValueForLoopCarriedAcc dot) c3)
            else c = findOutputBuffer (resultUsers dot) c3))"
proof -
  obtain ok c1 where ce:
    "checkElemTypes (elementType (lhsTy dot)) (elementType (rhsTy dot))
       (elementType (accTy dot)) (elementType (resTy dot))
       supportInt8 supportFp16 supportBf16 c0 = (ok, c1)"
    by fastforce
  from acc ce have ok: "ok" by (cases ok) (simp_all add: isAmxCandidate_def)
  from acc ce ok have shapes: "checkInputShapes (lhsTy dot) (resTy dot) = Some True"
    by (auto simp: isAmxCandidate_def split: bind_splits if_splits)
  from acc ce ok shapes obtain c2 where
    sizes: "setupBlockAndTileSizes (shape (lhsTy dot)) (shape (resTy dot))
              (c1\<lparr>op := Some dot\<rparr>) = Some c2"
    by (auto simp: isAmxCandidate_def split: bind_splits if_splits)
  let ?c3 = "c2\<lparr>keepAccOnTiles := isLoopCarriedAcc dot\<rparr>"
  from ce ok have ce':
    "checkElemTypes (elementType (lhsTy dot)) (elementType (rhsTy dot))
       (elementType (accTy dot)) (elementType (resTy dot))
       supportInt8 supportFp16 supportBf16 c0 = (True, c1)"
    by simp
  from checkElemTypes_accepted [OF ce'] obtain inTy accTy' where
    kb: "keepAccInBuf c1 = keepAccInBuf c0"
    and w: "lhsTileElemTy c1 = Some inTy"
      "getIntOrFloatBitWidth inTy = 8 \<or> getIntOrFloatBitWidth inTy = 16"
    and a: "accTileElemTy c1 = Some accTy'"
      "isInteger accTy' = isInteger (elementType (lhsTy dot))"
    by blast
  note sh = checkInputShapes_accepted [OF shapes]
  from setupBlockAndTileSizes_result [OF sizes] w sh
  have p3: "plannedSizes dot ?c3"
    by (auto simp: plannedSizes_def Let_def)
  have k3: "keepAccInBuf ?c3 = keepAccInBuf c0"
    using setupBlockAndTileSizes_result [OF sizes] kb by auto
  have a3: "accTileElemTy ?c3 = Some accTy'"
    using setupBlockAndTileSizes_result [OF sizes] a(1) by auto
  have final: "(if isLoopCarriedAcc dot
            then (if tilesInBlockM ?c3 * tileM ?c3 < shape (resTy dot) ! 0 \<or>
                     tilesInBlockN ?c3 * tileN ?c3 < shape (resTy dot) ! 1
                  then c = ?c3\<lparr>keepAccOnTiles := False, keepAccInBuf := True\<rparr>
                  else c = findOutputBuffer (getResValueForLoopCarriedAcc dot) ?c3)
            else c = findOutputBuffer (resultUsers dot) ?c3)"
    using acc ce ok shapes sizes sh
    by (auto simp: isAmxCandidate_def Let_def getDimSize_def dimAt_def split: if_splits)
  have "plannedSizes dot c"
    using final p3 by (auto simp: plannedSizes_def Let_def findOutputBuffer_keeps split: if_splits)
  moreover have "accTileElemTy c = Some accTy'"
    using final a3 by (auto simp: findOutputBuffer_keeps split: if_splits)
  ultimately show ?thesis
    using p3 k3 final a(2) by (intro conjI exI [of _ ?c3] exI [of _ accTy']) simp_all
qed

lemma scenarioA_accepted:
  "isAmxCandidate (int8Dot 16 16 64 False) True True True (defaultCandidate 0 0 0 0 0) =
   Some (True, exampleCandidate (int8Dot 16 16 64 False) (IntegerType 8) (IntegerType 32)
                 16 16 64 1 1 False False)"
  by (simp add: analysis_defs)

lemma scenarioD_accepted:
  "isAmxCandidate (int8Dot 64 64 64 True) True True True (defaultCandidate 0 0 0 0 0) =
   Some (True, exampleCandidate (int8Dot 64 64 64 True) (IntegerType 8) (IntegerType 32)
                 16 16 64 2 2 False True)"
  by (simp add: analysis_defs)

section \<open>Rejection of small and non-2-D operations\<close>

text \<open>
  Claim C7.  A dot operation whose LHS rank is not 2, or whose LHS row count, LHS column
  count or result column count is below 8, is rejected: \<open>isAmxCandidate\<close> returns false,
  whatever the three capability flags and the incoming descriptor are.
\<close>

theorem isAmxCandidate_rejects_small_shapes:
  assumes "getRank (lhsTy dot) \<noteq> 2 \<or>
     (\<exists>d. getDimSize (lhsTy dot) 0 = Some d \<and> d < 8) \<or>
     (\<exists>d. getDimSize (lhsTy dot) 1 = Some d \<and> d < 8) \<or>
     (\<exists>d. getDimSize (resTy dot) 1 = Some d \<and> d < 8)"
  shows "map_option fst (isAmxCandidate dot supportInt8 supportFp16 supportBf16 candidate)
         = Some False"
proof -
  have shapes: "checkInputShapes (lhsTy dot) (resTy dot) = Some False"
    using assms
    by (auto simp: checkInputShapes_def getRank_def getDimSize_def dimAt_def split: if_splits)
  show ?thesis
    by (auto simp add: isAmxCandidate_def shapes split: prod.splits bool.splits)
qed

text \<open>Scenario B: a 4\<times>4 LHS with every capability enabled.\<close>

theorem isAmxCandidate_rejects_small_shapes_witness:
  "getDimSize (lhsTy (int8Dot 4 4 4 False)) 0 = Some 4 \<and>
   map_option fst (isAmxCandidate (int8Dot 4 4 4 False) True True True
     (defaultCandidate 0 0 0 0 0)) = Some False"
  using isAmxCandidate_rejects_small_shapes
          [of "int8Dot 4 4 4 False" True True True "defaultCandidate 0 0 0 0 0"]
  by (simp add: int8Dot_def exampleDot_def getRank_def getDimSize_def dimAt_def)

section \<open>Accumulator and result wider than 32 bits\<close>

text \<open>
  An accumulator wider than 32 bits is rejected on both paths, and so is a result wider
  than 32 bits on the integer path.
\<close>

lemma checkElemTypes_acc_too_wide:
  "32 < getIntOrFloatBitWidth accElemTy \<Longrightarrow>
   fst (checkElemTypes lhsElemTy rhsElemTy accElemTy resElemTy supportInt8 supportFp16
          supportBf16 c) = False"
  by (simp add: checkElemTypes_def Let_def)

lemma checkElemTypes_int_res_too_wide:
  "isInteger lhsElemTy \<Longrightarrow> 32 < getIntOrFloatBitWidth resElemTy \<Longrightarrow>
   fst (checkElemTypes lhsElemTy rhsElemTy accElemTy resElemTy supportInt8 supportFp16
          supportBf16 c) = False"
  by (simp add: checkElemTypes_def Let_def)

text \<open>
  Claim C2.  A dot operation whose accumulator element type or result element type is wider
  than 32 bits is rejected: \<open>checkElemTypes\<close> and \<open>isAmxCandidate\<close> return false, whatever
  the input types are, so on the integer path and on the floating-point path alike.  The
  result has the accumulator's type; the integer path tests both widths, the floating-point
  path tests the accumulator's.
\<close>

theorem isAmxCandidate_rejects_wide_accumulator:
  assumes "32 < getIntOrFloatBitWidth (elementType (accTy dot)) \<or>
           32 < getIntOrFloatBitWidth (elementType (resTy dot))"
  shows "fst (checkElemTypes (elementType (lhsTy dot)) (elementType (rhsTy dot))
                (elementType (accTy dot)) (elementType (resTy dot))
                supportInt8 supportFp16 supportBf16 candidate) = False \<and>
         map_option fst (isAmxCandidate dot supportInt8 supportFp16 supportBf16 candidate)
           = Some False"
proof -
  from assms have "32 < getIntOrFloatBitWidth (elementType (accTy dot))"
    by (auto simp: resTy_def)
  then have "fst (checkElemTypes (elementType (lhsTy dot)) (elementType (rhsTy dot))
                (elementType (accTy dot)) (elementType (resTy dot))
                supportInt8 supportFp16 supportBf16 candidate) = False"
    by (rule checkElemTypes_acc_too_wide)
  then show ?thesis
    by (auto simp add: isAmxCandidate_def split: prod.splits bool.splits)
qed

text \<open>
  An 8-bit integer dot with a 64-bit integer accumulator, and an F16 dot with an F64
  accumulator, every capability enabled.
\<close>

theorem isAmxCandidate_rejects_wide_accumulator_witness:
  "isInteger (elementType (lhsTy (exampleDot (IntegerType 8) (IntegerType 8) (IntegerType 64)
                                    16 16 64 False))) \<and>
   map_option fst
     (isAmxCandidate (exampleDot (IntegerType 8) (IntegerType 8) (IntegerType 64) 16 16 64 False)
        True True True (defaultCandidate 0 0 0 0 0)) = Some False \<and>
   map_option fst
     (isAmxCandidate
        (exampleDot (FloatType Float16) (FloatType Float16) (FloatType Float64) 16 16 32 False)
        True True True (defaultCandidate 0 0 0 0 0)) = Some False"
  using isAmxCandidate_rejects_wide_accumulator
          [of "exampleDot (IntegerType 8) (IntegerType 8) (IntegerType 64) 16 16 64 False"
              True True True "defaultCandidate 0 0 0 0 0"]
        isAmxCandidate_rejects_wide_accumulator
          [of "exampleDot (FloatType Float16) (FloatType Float16) (FloatType Float64)
                 16 16 32 False"
              True True True "defaultCandidate 0 0 0 0 0"]
  by (simp add: exampleDot_def)

section \<open>The common tile input type\<close>

text \<open>
  Claim C4.  For floating-point inputs the common tile input type is resolved as the
  specification says (\<open>commonInputType\<close>): two 16-bit inputs of different encodings have
  no common type and the operation is rejected; otherwise a 16-bit input decides, and two
  narrower inputs go to brain-float if it is supported, else to F16.  If the capability for
  the resolved type is disabled the operation is rejected.  An accepted operation has the
  resolved type as LHS and RHS tile element type.  The last conjunct says exactly when
  \<open>checkElemTypes\<close> accepts floating-point inputs.
\<close>

theorem checkElemTypes_common_type:
  assumes "\<not> isInteger lhsElemTy" and "\<not> isInteger rhsElemTy"
  shows "(commonInputType lhsElemTy rhsElemTy supportBf16 = None \<longrightarrow>
            \<not> fst (checkElemTypes lhsElemTy rhsElemTy accElemTy resElemTy
                     supportInt8 supportFp16 supportBf16 candidate)) \<and>
         (\<forall>ty. commonInputType lhsElemTy rhsElemTy supportBf16 = Some ty \<longrightarrow>
            \<not> capabilityFor ty supportFp16 supportBf16 \<longrightarrow>
            \<not> fst (checkElemTypes lhsElemTy rhsElemTy accElemTy resElemTy
                     supportInt8 supportFp16 supportBf16 candidate)) \<and>
         (\<forall>c. checkElemTypes lhsElemTy rhsElemTy accElemTy resElemTy
                 supportInt8 supportFp16 supportBf16 candidate = (True, c) \<longrightarrow>
            lhsTileElemTy c = commonInputType lhsElemTy rhsElemTy supportBf16 \<and>
            rhsTileElemTy c = commonInputType lhsElemTy rhsElemTy supportBf16) \<and>
         (fst (checkElemTypes lhsElemTy rhsElemTy accElemTy resElemTy
                 supportInt8 supportFp16 supportBf16 candidate) \<longleftrightarrow>
            \<not> isInteger accElemTy \<and> \<not> isInteger resElemTy \<and>
            getIntOrFloatBitWidth lhsElemTy \<le> 16 \<and> getIntOrFloatBitWidth rhsElemTy \<le> 16 \<and>
            (\<exists>ty. commonInputType lhsElemTy rhsElemTy supportBf16 = Some ty \<and>
                  capabilityFor ty supportFp16 supportBf16) \<and>
            getIntOrFloatBitWidth accElemTy \<le> 32)"
  using assms
  by (auto simp: checkElemTypes_def commonInputType_def capabilityFor_def isF16_def isBF16_def
        Let_def)

text \<open>
  Scenario C: an F16 LHS and an 8-bit float RHS resolve to F16; with F16 support off the
  operation is rejected although brain-float support is on.
\<close>

theorem checkElemTypes_common_type_witness:
  "commonInputType (FloatType Float16) (FloatType Float8E5M2) True = Some (FloatType Float16) \<and>
   \<not> capabilityFor (FloatType Float16) False True \<and>
   \<not> fst (checkElemTypes (FloatType Float16) (FloatType Float8E5M2) (FloatType Float32)
            (FloatType Float32) True False True (defaultCandidate 0 0 0 0 0))"
  using checkElemTypes_common_type
          [of "FloatType Float16" "FloatType Float8E5M2" True "FloatType Float32"
              "FloatType Float32" True False "defaultCandidate 0 0 0 0 0"]
  by (simp add: commonInputType_def capabilityFor_def)

section \<open>Placement of a loop-carried accumulator\<close>

text \<open>
  Claim C5.  For an accepted operation (analysed from a default-initialised descriptor):
  the two flags \<open>keepAccOnTiles\<close> and \<open>keepAccInBuf\<close> are never both set; for a
  loop-carried accumulator, if the single-block fit test fails
  (\<open>tilesInBlockM * tileM < M\<close> or \<open>tilesInBlockN * tileN < N\<close>) then \<open>keepAccInBuf\<close> is set
  and \<open>keepAccOnTiles\<close> is not, otherwise \<open>keepAccOnTiles\<close> is set and \<open>keepAccInBuf\<close> is
  not; for an accumulator that is not loop-carried both are false.
\<close>

theorem accumulator_placement:
  assumes "isAmxCandidate dot supportInt8 supportFp16 supportBf16
             (defaultCandidate tm tn tk bm bn) = Some (True, c)"
  shows "\<not> (keepAccOnTiles c \<and> keepAccInBuf c) \<and>
         (isLoopCarriedAcc dot \<longrightarrow>
            (if tilesInBlockM c * tileM c < shape (resTy dot) ! 0 \<or>
                tilesInBlockN c * tileN c < shape (resTy dot) ! 1
             then \<not> keepAccOnTiles c \<and> keepAccInBuf c
             else keepAccOnTiles c \<and> \<not> keepAccInBuf c)) \<and>
         (\<not> isLoopCarriedAcc dot \<longrightarrow> \<not> keepAccOnTiles c \<and> \<not> keepAccInBuf c)"
proof -
  from isAmxCandidate_accepted [OF assms] obtain c3 where
    flags: "keepAccOnTiles c3 = isLoopCarriedAcc dot"
      "keepAccInBuf c3 = keepAccInBuf (defaultCandidate tm tn tk bm bn)"
    and final: "if isLoopCarriedAcc dot
            then (if tilesInBlockM c3 * tileM c3 < shape (resTy dot) ! 0 \<or>
                     tilesInBlockN c3 * tileN c3 < shape (resTy dot) ! 1
                  then c = c3\<lparr>keepAccOnTiles := False, keepAccInBuf := True\<rparr>
                  else c = findOutputBuffer (getResValueForLoopCarriedAcc dot) c3)
            else c = findOutputBuffer (resultUsers dot) c3"
    by blast
  have inBuf: "\<not> keepAccInBuf c3" using flags(2) by (simp add: defaultCandidate_def)
  show ?thesis
  proof (cases "isLoopCarriedAcc dot")
    case False
    with final flags inBuf show ?thesis by (simp add: findOutputBuffer_keeps)
  next
    case True
    show ?thesis
    proof (cases "tilesInBlockM c3 * tileM c3 < shape (resTy dot) ! 0 \<or>
                  tilesInBlockN c3 * tileN c3 < shape (resTy dot) ! 1")
      case True
      with final \<open>isLoopCarriedAcc dot\<close>
      have "c = c3\<lparr>keepAccOnTiles := False, keepAccInBuf := True\<rparr>" by simp
      with True \<open>isLoopCarriedAcc dot\<close> show ?thesis by simp
    next
      case False
      with final \<open>isLoopCarriedAcc dot\<close>
      have "c = findOutputBuffer (getResValueForLoopCarriedAcc dot) c3" by simp
      with False \<open>isLoopCarriedAcc dot\<close> flags inBuf show ?thesis
        by (simp add: findOutputBuffer_keeps)
    qed
  qed
qed

text \<open>
  Scenario D: a loop-carried 64\<times>64 accumulator in 2\<times>2 blocks of 16\<times>16 tiles does
  not fit one block and is kept in a buffer.
\<close>

theorem accumulator_placement_witness:
  "isLoopCarriedAcc (int8Dot 64 64 64 True) \<and>
   keepAccInBuf (exampleCandidate (int8Dot 64 64 64 True) (IntegerType 8) (IntegerType 32)
                   16 16 64 2 2 False True) \<and>
   \<not> keepAccOnTiles (exampleCandidate (int8Dot 64 64 64 True) (IntegerType 8) (IntegerType 32)
                   16 16 64 2 2 False True)"
  using accumulator_placement [OF scenarioD_accepted]
  by (simp add: exampleCandidate_def int8Dot_def exampleDot_def resTy_def)

section \<open>Limits on tile and block sizes\<close>

text \<open>
  The limits hold for an accepted operation when the product of the initial block extents
  is a 64-bit value: \<open>1 \<le> tileM \<le> 16\<close>, \<open>1 \<le> tileN \<le> 16\<close>,
  \<open>tileK * bitwidth lhsTileElemTy \<le> 512\<close> and \<open>tilesInBlockM * tilesInBlockN \<le> 4\<close>.
  The dimension sizes of the result type are positive, as they are in every vector type.
  The first three limits do not depend on the product.
\<close>

lemma accepted_tile_limits:
  assumes "isAmxCandidate dot supportInt8 supportFp16 supportBf16 c0 = Some (True, c)"
    and "validVectorType (resTy dot)"
  shows "1 \<le> tileM c \<and> tileM c \<le> 16 \<and> 1 \<le> tileN c \<and> tileN c \<le> 16 \<and>
         (\<exists>ty. lhsTileElemTy c = Some ty \<and> tileK c * int (getIntOrFloatBitWidth ty) \<le> 512) \<and>
         mulInt64 (tilesInBlockM c) (tilesInBlockN c) \<le> 4"
proof -
  from isAmxCandidate_accepted [OF assms(1)] have p: "plannedSizes dot c" by simp
  then obtain ty where ty: "lhsTileElemTy c = Some ty"
     "getIntOrFloatBitWidth ty = 8 \<or> getIntOrFloatBitWidth ty = 16"
     "tileK c = min (shape (lhsTy dot) ! 1) (512 sdiv int (getIntOrFloatBitWidth ty))"
    by (auto simp: plannedSizes_def Let_def)
  from p have len: "2 \<le> length (shape (resTy dot))" by (simp add: plannedSizes_def Let_def)
  then have "0 < length (shape (resTy dot))" by linarith
  then have "shape (resTy dot) ! 0 \<in> set (shape (resTy dot))" by (rule nth_mem)
  with assms(2) have m: "0 < shape (resTy dot) ! 0"
    by (simp add: validVectorType_def list_all_iff)
  from p m have tiles: "1 \<le> tileM c \<and> tileM c \<le> 16 \<and> 1 \<le> tileN c \<and> tileN c \<le> 16"
    by (auto simp: plannedSizes_def Let_def)
  from ty(2,3) have k: "tileK c * int (getIntOrFloatBitWidth ty) \<le> 512"
    by (auto simp: min_def)
  from p have "mulInt64 (tilesInBlockM c) (tilesInBlockN c) \<le> 4"
    using accBlocksLoop_exit by (simp add: plannedSizes_def Let_def)
  with tiles ty(1) k show ?thesis by blast
qed

lemma accepted_block_limit_without_overflow:
  assumes "isAmxCandidate dot supportInt8 supportFp16 supportBf16 c0 = Some (True, c)"
    and "validVectorType (resTy dot)"
    and "(shape (resTy dot) ! 0 sdiv min (shape (resTy dot) ! 0) 16) *
         (shape (resTy dot) ! 1 sdiv min (shape (resTy dot) ! 1) 16) < 2 ^ 63"
  shows "tilesInBlockM c * tilesInBlockN c \<le> 4"
proof -
  define m n where mn: "m = shape (resTy dot) ! 0" "n = shape (resTy dot) ! 1"
  from isAmxCandidate_accepted [OF assms(1)] have p: "plannedSizes dot c" by simp
  then have len: "2 \<le> length (shape (resTy dot))" and n: "8 \<le> n"
    and bm: "tilesInBlockM c = fst (accBlocksLoop (m sdiv min m 16) (n sdiv min n 16))"
    and bn: "tilesInBlockN c = snd (accBlocksLoop (m sdiv min m 16) (n sdiv min n 16))"
    unfolding plannedSizes_def Let_def mn by blast+
  from len have "0 < length (shape (resTy dot))" by linarith
  then have "m \<in> set (shape (resTy dot))" unfolding mn by (rule nth_mem)
  with assms(2) have m: "0 < m" by (simp add: validVectorType_def list_all_iff)
  have a: "0 \<le> m sdiv min m 16"
    using m by (simp add: sdiv_nonneg_eq_div min_def pos_imp_zdiv_nonneg_iff)
  have b: "0 \<le> n sdiv min n 16"
    using n by (simp add: sdiv_nonneg_eq_div min_def pos_imp_zdiv_nonneg_iff)
  have small: "(m sdiv min m 16) * (n sdiv min n 16) < 2 ^ 63"
    using assms(3) unfolding mn .
  from accBlocksLoop_halving [OF a b small] show ?thesis by (simp add: bm bn)
qed

lemma dot_2_36_accepted:
  "isAmxCandidate (int8Dot 68719476736 68719476736 64 False) True True True
     (defaultCandidate 0 0 0 0 0) =
   Some (True, exampleCandidate (int8Dot 68719476736 68719476736 64 False) (IntegerType 8)
                 (IntegerType 32) 16 16 64 4294967296 4294967296 False False)"
  by (simp add: analysis_defs)

text \<open>
  Claim C3.  The claim is that the descriptor of every accepted operation satisfies
  \<open>1 \<le> tileM \<le> 16\<close>, \<open>1 \<le> tileN \<le> 16\<close>, \<open>tileK * bitwidth lhsTileElemTy \<le> 512\<close> and
  \<open>tilesInBlockM * tilesInBlockN \<le> 4\<close>.  The loop tests the 64-bit product of the block
  extents.  For an 8-bit integer dot with a result of \<open>2^36 \<times> 2^36\<close> elements the extents
  start at \<open>2^32\<close> each, their 64-bit product is 0, the loop does not run, and the accepted
  descriptor has \<open>tilesInBlockM = tilesInBlockN = 2^32\<close>: far more than the 4 accumulator
  tiles that the comment in \<open>setupBlockAndTileSizes\<close> allows for a block.
\<close>

theorem block_limit_overflow:
  "validVectorType (resTy (int8Dot 68719476736 68719476736 64 False)) \<and>
   isAmxCandidate (int8Dot 68719476736 68719476736 64 False) True True True
     (defaultCandidate 0 0 0 0 0) =
     Some (True, exampleCandidate (int8Dot 68719476736 68719476736 64 False) (IntegerType 8)
                   (IntegerType 32) 16 16 64 4294967296 4294967296 False False) \<and>
   mulInt64 (68719476736 sdiv min 68719476736 16) (68719476736 sdiv min 68719476736 16) = 0 \<and>
   4 < tilesInBlockM (exampleCandidate (int8Dot 68719476736 68719476736 64 False)
                        (IntegerType 8) (IntegerType 32) 16 16 64 4294967296 4294967296
                        False False) *
       tilesInBlockN (exampleCandidate (int8Dot 68719476736 68719476736 64 False)
                        (IntegerType 8) (IntegerType 32) 16 16 64 4294967296 4294967296
                        False False)"
  using dot_2_36_accepted
  by (simp add: validVectorType_def int8Dot_def exampleDot_def resTy_def exampleCandidate_def
        mulInt64_def toInt64_def)

text \<open>The operation is accepted, from the evaluation above.\<close>

theorem block_limit_overflow_witness:
  "map_option fst
     (isAmxCandidate (int8Dot 68719476736 68719476736 64 False) True True True
        (defaultCandidate 0 0 0 0 0)) = Some True"
  using block_limit_overflow by simp

section \<open>The size planner\<close>

inductive_cases halving_cases: "halving (a, b) r"

inductive_cases halvingTiesM_cases: "halvingTiesM (a, b) r"

text \<open>The halving rule determines the final block extents.\<close>

lemma halving_deterministic: "halving s r \<Longrightarrow> halving s r' \<Longrightarrow> r = r'"
proof (induction arbitrary: r' rule: halving.induct)
  case (halving_stop a b)
  from halving_stop(2) show ?case by (rule halving_cases) (use halving_stop(1) in simp_all)
next
  case (halving_M a b r)
  from halving_M(5) show ?case
  proof (rule halving_cases)
    assume "a * b \<le> 4" with halving_M(1) show ?thesis by simp
  next
    assume "halving (a div 2, b) r'" then show ?thesis by (rule halving_M.IH)
  next
    assume "a \<le> b" with halving_M(2) show ?thesis by simp
  qed
next
  case (halving_N a b r)
  from halving_N(5) show ?case
  proof (rule halving_cases)
    assume "a * b \<le> 4" with halving_N(1) show ?thesis by simp
  next
    assume "b < a" with halving_N(2) show ?thesis by simp
  next
    assume "halving (a, b div 2) r'" then show ?thesis by (rule halving_N.IH)
  qed
qed

text \<open>Both rules end with a product of at most 4.\<close>

lemma halving_result_product: "halving s r \<Longrightarrow> fst r * snd r \<le> 4"
  by (induction rule: halving.induct) simp_all

lemma halvingTiesM_result_product: "halvingTiesM s r \<Longrightarrow> fst r * snd r \<le> 4"
  by (induction rule: halvingTiesM.induct) simp_all

lemma halvingTiesM_3_3: "halvingTiesM (3, 3) (1, 3) \<and> \<not> halvingTiesM (3, 3) (3, 1)"
proof
  have "halvingTiesM (1, 3) (1, 3)" by (rule tiesM_stop) simp
  then have "halvingTiesM (3 div 2, 3) (1, 3)" by simp
  then show "halvingTiesM (3, 3) (1, 3)" by (rule tiesM_M [rotated 2]) simp_all
  show "\<not> halvingTiesM (3, 3) (3, 1)"
  proof
    assume "halvingTiesM (3, 3) (3, 1)"
    then show False
    proof (rule halvingTiesM_cases)
      assume "halvingTiesM (3 div 2, 3) (3, 1)"
      then have "halvingTiesM (1, 3) (3, 1)" by simp
      then show False by (rule halvingTiesM_cases) simp_all
    qed simp_all
  qed
qed

lemma dot48_accepted:
  "isAmxCandidate (int8Dot 48 48 64 False) True True True (defaultCandidate 0 0 0 0 0) =
   Some (True, exampleCandidate (int8Dot 48 48 64 False) (IntegerType 8) (IntegerType 32)
                 16 16 64 3 1 False False)"
  by (simp add: analysis_defs)

text \<open>
  Claim C1, as stated, fails: at a tie the loop halves \<open>accBlocksN\<close>, not \<open>accBlocksM\<close>
  (the test is \<open>accBlocksM > accBlocksN\<close>, and the else branch halves \<open>accBlocksN\<close>).
  A 48\<times>48 result in 16\<times>16 tiles starts from 3\<times>3 blocks; the planner ends with
  \<open>tilesInBlockM = 3\<close> and \<open>tilesInBlockN = 1\<close>, where the rule with ties shrinking M
  ends with 1 and 3.  For the 64\<times>64 result of Scenario D the loop goes from 4\<times>4 to
  4\<times>2 and then to 2\<times>2.  The loop tests the 64-bit product, too: a result of
  \<open>2^36 \<times> 2^36\<close> elements starts from \<open>2^32 \<times> 2^32\<close> blocks, whose 64-bit product is 0, and
  the planner keeps these extents, which neither rule ends with.
\<close>

theorem planner_ties_counterexample:
  "isAmxCandidate (int8Dot 48 48 64 False) True True True (defaultCandidate 0 0 0 0 0) =
     Some (True, exampleCandidate (int8Dot 48 48 64 False) (IntegerType 8) (IntegerType 32)
                   16 16 64 3 1 False False) \<and>
   halvingTiesM (48 div min 48 16, 48 div min 48 16) (1, 3) \<and>
   \<not> halvingTiesM (48 div min 48 16, 48 div min 48 16) (3, 1) \<and>
   accBlocksTrace (64 sdiv min 64 16) (64 sdiv min 64 16) = [(4, 4), (4, 2), (2, 2)] \<and>
   isAmxCandidate (int8Dot 68719476736 68719476736 64 False) True True True
     (defaultCandidate 0 0 0 0 0) =
     Some (True, exampleCandidate (int8Dot 68719476736 68719476736 64 False) (IntegerType 8)
                   (IntegerType 32) 16 16 64 4294967296 4294967296 False False) \<and>
   \<not> halvingTiesM (68719476736 div min 68719476736 16, 68719476736 div min 68719476736 16)
       (4294967296, 4294967296) \<and>
   \<not> halving (68719476736 div min 68719476736 16, 68719476736 div min 68719476736 16)
       (4294967296, 4294967296)"
proof -
  have trace: "accBlocksTrace (64 sdiv min 64 16) (64 sdiv min 64 16) = [(4, 4), (4, 2), (2, 2)]"
    by (simp add: accBlocksTrace.simps mulInt64_def toInt64_def)
  have tiesM: "\<not> halvingTiesM (4294967296, 4294967296) (4294967296, 4294967296)"
    using halvingTiesM_result_product [of "(4294967296, 4294967296)" "(4294967296, 4294967296)"]
    by auto
  have tiesN: "\<not> halving (4294967296, 4294967296) (4294967296, 4294967296)"
    using halving_result_product [of "(4294967296, 4294967296)" "(4294967296, 4294967296)"]
    by auto
  have blocks: "(68719476736::nat) div min 68719476736 16 = 4294967296" by simp
  show ?thesis
    unfolding blocks using dot48_accepted halvingTiesM_3_3 dot_2_36_accepted trace tiesM tiesN
    by simp
qed

text \<open>
  Claim C1, amended: ties shrink the N side.  For an accepted operation with \<open>M\<close>, \<open>N\<close>
  the result dimensions, \<open>K\<close> the LHS column count and \<open>bw\<close> the bit width of the
  legalized input type, the planner sets \<open>tileM = min M 16\<close>, \<open>tileN = min N 16\<close>,
  \<open>tileK = min K (512 div bw)\<close>.  When the product of the initial extents \<open>M div tileM\<close>
  and \<open>N div tileN\<close> is a signed 64-bit value (below \<open>2^63\<close>), so that the 64-bit product
  that the loop tests is the product, the block extents are those that the halving rule
  (with ties halving N) reaches from the initial extents.  The dimension sizes of the
  result type are positive, as in every vector type.
\<close>

theorem planner_sizes:
  fixes M N K :: nat
  assumes "isAmxCandidate dot supportInt8 supportFp16 supportBf16 c0 = Some (True, c)"
    and "validVectorType (resTy dot)"
    and "M = nat (shape (resTy dot) ! 0)"
    and "N = nat (shape (resTy dot) ! 1)"
    and "K = nat (shape (lhsTy dot) ! 1)"
  shows "\<exists>bw. map_option getIntOrFloatBitWidth (lhsTileElemTy c) = Some bw \<and>
           tileM c = int (min M 16) \<and> tileN c = int (min N 16) \<and>
           tileK c = int (min K (512 div bw)) \<and>
           0 \<le> tilesInBlockM c \<and> 0 \<le> tilesInBlockN c \<and>
           ((M div min M 16) * (N div min N 16) < 2 ^ 63 \<longrightarrow>
              halving (M div min M 16, N div min N 16)
                (nat (tilesInBlockM c), nat (tilesInBlockN c)))"
proof -
  define m n k where mnk: "m = shape (resTy dot) ! 0" "n = shape (resTy dot) ! 1"
    "k = shape (lhsTy dot) ! 1"
  from isAmxCandidate_accepted [OF assms(1)] have p: "plannedSizes dot c" by simp
  then obtain ty where ty: "lhsTileElemTy c = Some ty"
     "getIntOrFloatBitWidth ty = 8 \<or> getIntOrFloatBitWidth ty = 16"
     "tileK c = min k (512 sdiv int (getIntOrFloatBitWidth ty))"
    unfolding plannedSizes_def Let_def mnk by blast
  from p have len: "2 \<le> length (shape (resTy dot))" and n: "8 \<le> n" and k: "8 \<le> k"
    and tm: "tileM c = min m 16" and tn: "tileN c = min n 16"
    and bm: "tilesInBlockM c = fst (accBlocksLoop (m sdiv min m 16) (n sdiv min n 16))"
    and bn: "tilesInBlockN c = snd (accBlocksLoop (m sdiv min m 16) (n sdiv min n 16))"
    unfolding plannedSizes_def Let_def mnk by blast+
  from len have "0 < length (shape (resTy dot))" by linarith
  then have "m \<in> set (shape (resTy dot))" unfolding mnk by (rule nth_mem)
  with assms(2) have m: "0 < m" by (simp add: validVectorType_def list_all_iff)
  have mM: "m = int M" and nN: "n = int N" and kK: "k = int K"
    using m n k unfolding assms(3,4,5) mnk by simp_all
  have mins: "min (int M) 16 = int (min M 16)" "min (int N) 16 = int (min N 16)"
    by (simp_all add: min_def)
  have tK: "tileK c = int (min K (512 div getIntOrFloatBitWidth ty))"
    using ty(2,3) by (auto simp: kK sdiv_nonneg_eq_div min_def)
  have a0: "m sdiv min m 16 = int (M div min M 16)"
    by (simp add: mM mins sdiv_nonneg_eq_div zdiv_int)
  have b0: "n sdiv min n 16 = int (N div min N 16)"
    by (simp add: nN mins sdiv_nonneg_eq_div zdiv_int)
  have nonneg: "0 \<le> tilesInBlockM c \<and> 0 \<le> tilesInBlockN c"
  proof -
    have "0 \<le> int (M div min M 16)" and "0 \<le> int (N div min N 16)" by simp_all
    from accBlocksLoop_nonneg [OF this] show ?thesis by (simp add: bm bn a0 b0)
  qed
  have h: "halving (M div min M 16, N div min N 16)
             (nat (tilesInBlockM c), nat (tilesInBlockN c))"
    if fits: "(M div min M 16) * (N div min N 16) < 2 ^ 63"
  proof -
    have "int ((M div min M 16) * (N div min N 16)) < int (2 ^ 63)"
      using fits by (simp only: of_nat_less_iff)
    then have small: "int (M div min M 16) * int (N div min N 16) < 2 ^ 63" by simp
    have "0 \<le> int (M div min M 16)" and "0 \<le> int (N div min N 16)" by simp_all
    from accBlocksLoop_halving [OF this small] show ?thesis
      by (simp add: bm bn a0 b0)
  qed
  show ?thesis
    using ty(1) tK h nonneg
    by (intro exI [of _ "getIntOrFloatBitWidth ty"]) (simp add: tm tn mM nN mins)
qed

text \<open>The 48\<times>48 operation: from 3\<times>3 blocks the rule reaches 3\<times>1.\<close>

theorem planner_sizes_witness:
  "validVectorType (resTy (int8Dot 48 48 64 False)) \<and>
   halving (48 div min 48 16, 48 div min 48 16)
     (nat (tilesInBlockM (exampleCandidate (int8Dot 48 48 64 False) (IntegerType 8)
                            (IntegerType 32) 16 16 64 3 1 False False)),
      nat (tilesInBlockN (exampleCandidate (int8Dot 48 48 64 False) (IntegerType 8)
                            (IntegerType 32) 16 16 64 3 1 False False)))"
proof -
  have v: "validVectorType (resTy (int8Dot 48 48 64 False))"
    by (simp add: validVectorType_def int8Dot_def exampleDot_def resTy_def)
  have d: "shape (resTy (int8Dot 48 48 64 False)) = [48, 48]"
    by (simp add: int8Dot_def exampleDot_def resTy_def)
  have l: "shape (lhsTy (int8Dot 48 48 64 False)) = [48, 64]"
    by (simp add: int8Dot_def exampleDot_def)
  have M: "(48::nat) = nat (shape (resTy (int8Dot 48 48 64 False)) ! 0)"
    and N: "(48::nat) = nat (shape (resTy (int8Dot 48 48 64 False)) ! 1)"
    and K: "(64::nat) = nat (shape (lhsTy (int8Dot 48 48 64 False)) ! 1)"
    by (simp_all add: d l)
  from planner_sizes [OF dot48_accepted v M N K] v show ?thesis
    by auto
qed

section \<open>Termination of the halving loop\<close>

lemma accBlocksTrace_not_Nil: "accBlocksTrace a b \<noteq> []"
  by (subst accBlocksTrace.simps) simp

lemma accBlocksTrace_hd: "hd (accBlocksTrace a b) = (a, b)"
  by (subst accBlocksTrace.simps) simp

lemma accBlocksLoop_last_trace: "accBlocksLoop a b = last (accBlocksTrace a b)"
proof (induction a b rule: accBlocksLoop.induct)
  case (1 a b)
  show ?case
  proof (cases "4 < mulInt64 a b")
    case False
    then show ?thesis by (simp add: accBlocksLoop.simps [of a b] accBlocksTrace.simps [of a b])
  next
    case True
    with "1" show ?thesis
      by (cases "b < a")
        (simp_all add: accBlocksLoop.simps [of a b] accBlocksTrace.simps [of a b]
           accBlocksTrace_not_Nil)
  qed
qed

lemma accBlocksTrace_guard:
  "s \<in> set (butlast (accBlocksTrace a b)) \<Longrightarrow> 4 < blockProduct64 s"
proof (induction a b rule: accBlocksTrace.induct)
  case (1 a b)
  show ?case
  proof (cases "4 < mulInt64 a b")
    case False
    with "1.prems" show ?thesis by (simp add: accBlocksTrace.simps [of a b])
  next
    case True
    with "1" show ?thesis
      by (cases "b < a")
        (auto simp add: accBlocksTrace.simps [of a b] accBlocksTrace_not_Nil blockProduct64_def)
  qed
qed

lemma accBlocksTrace_ge_one:
  "1 \<le> a \<Longrightarrow> 1 \<le> b \<Longrightarrow> s \<in> set (accBlocksTrace a b) \<Longrightarrow> 1 \<le> fst s \<and> 1 \<le> snd s"
proof (induction a b rule: accBlocksTrace.induct)
  case (1 a b)
  show ?case
  proof (cases "4 < mulInt64 a b")
    case False
    with "1.prems" show ?thesis by (simp add: accBlocksTrace.simps [of a b])
  next
    case True
    with "1.prems" have prod: "4 < a * b" by (intro guard_product)
    show ?thesis
    proof (cases "b < a")
      case True
      with "1.prems" have half: "1 \<le> a sdiv 2" by (intro sdiv_two_ge_one) simp
      from "1.prems"(3) True \<open>4 < mulInt64 a b\<close>
      have "s = (a, b) \<or> s \<in> set (accBlocksTrace (a sdiv 2) b)"
        by (simp add: accBlocksTrace.simps [of a b])
      then show ?thesis
      proof
        assume "s = (a, b)" with "1.prems" show ?thesis by simp
      next
        assume "s \<in> set (accBlocksTrace (a sdiv 2) b)"
        with "1.IH"(1) [OF \<open>4 < mulInt64 a b\<close> True half "1.prems"(2)] show ?thesis .
      qed
    next
      case False
      with prod "1.prems" have "2 \<le> b"
        by (intro tie_or_smaller_ge_two [of a b]) simp_all
      then have half: "1 \<le> b sdiv 2" by (rule sdiv_two_ge_one)
      from "1.prems"(3) False \<open>4 < mulInt64 a b\<close>
      have "s = (a, b) \<or> s \<in> set (accBlocksTrace a (b sdiv 2))"
        by (simp add: accBlocksTrace.simps [of a b])
      then show ?thesis
      proof
        assume "s = (a, b)" with "1.prems" show ?thesis by simp
      next
        assume "s \<in> set (accBlocksTrace a (b sdiv 2))"
        with "1.IH"(2) [OF \<open>4 < mulInt64 a b\<close> False "1.prems"(1) half] show ?thesis .
      qed
    qed
  qed
qed

lemma accBlocksTrace_above_4:
  assumes "1 \<le> a" and "1 \<le> b" and "s \<in> set (butlast (accBlocksTrace a b))"
  shows "4 < blockProduct s"
proof -
  from assms(3) have "s \<in> set (accBlocksTrace a b)" by (rule in_set_butlastD)
  with assms(1,2) have "1 \<le> fst s \<and> 1 \<le> snd s" by (rule accBlocksTrace_ge_one)
  moreover from assms(3) have "4 < mulInt64 (fst s) (snd s)"
    using accBlocksTrace_guard [of s a b] by (simp add: blockProduct64_def)
  ultimately show ?thesis unfolding blockProduct_def by (intro guard_product) simp_all
qed

lemma accBlocksTrace_decreasing:
  "1 \<le> a \<Longrightarrow> 1 \<le> b \<Longrightarrow>
   successively (\<lambda>s t. blockProduct t < blockProduct s) (accBlocksTrace a b)"
proof (induction a b rule: accBlocksTrace.induct)
  case (1 a b)
  show ?case
  proof (cases "4 < mulInt64 a b")
    case False
    then show ?thesis by (simp add: accBlocksTrace.simps [of a b])
  next
    case True
    with "1.prems" have prod: "4 < a * b" by (intro guard_product)
    show ?thesis
    proof (cases "b < a")
      case True
      with "1.prems" have half: "1 \<le> a sdiv 2" by (intro sdiv_two_ge_one) simp
      have "a sdiv 2 < a" using "1.prems" by (simp add: sdiv_nonneg_eq_div)
      with "1.prems" have less: "a sdiv 2 * b < a * b" by simp
      from "1.IH"(1) [OF \<open>4 < mulInt64 a b\<close> True half "1.prems"(2)] less True
        \<open>4 < mulInt64 a b\<close>
      show ?thesis
        by (simp add: accBlocksTrace.simps [of a b] successively_Cons accBlocksTrace_hd
              blockProduct_def)
    next
      case False
      with prod "1.prems" have "2 \<le> b"
        by (intro tie_or_smaller_ge_two [of a b]) simp_all
      then have half: "1 \<le> b sdiv 2" by (rule sdiv_two_ge_one)
      have "b sdiv 2 < b" using "1.prems" by (simp add: sdiv_nonneg_eq_div)
      with "1.prems" have less: "a * (b sdiv 2) < a * b" by simp
      from "1.IH"(2) [OF \<open>4 < mulInt64 a b\<close> False "1.prems"(1) half] less False
        \<open>4 < mulInt64 a b\<close>
      show ?thesis
        by (simp add: accBlocksTrace.simps [of a b] successively_Cons accBlocksTrace_hd
              blockProduct_def)
    qed
  qed
qed

text \<open>
  When the product of the initial extents is a 64-bit value, so is every later product,
  and the value that the loop tests decreases as well.
\<close>

lemma accBlocksTrace_decreasing64:
  "1 \<le> a \<Longrightarrow> 1 \<le> b \<Longrightarrow> a * b < 2 ^ 63 \<Longrightarrow>
   successively (\<lambda>s t. blockProduct64 t < blockProduct64 s) (accBlocksTrace a b)"
proof (induction a b rule: accBlocksTrace.induct)
  case (1 a b)
  have guard: "mulInt64 a b = a * b" using "1.prems" by (intro guard_no_overflow) simp_all
  show ?case
  proof (cases "4 < mulInt64 a b")
    case False
    then show ?thesis by (simp add: accBlocksTrace.simps [of a b])
  next
    case True
    then have prod: "4 < a * b" by (simp add: guard)
    show ?thesis
    proof (cases "b < a")
      case True
      with "1.prems" have half: "1 \<le> a sdiv 2" by (intro sdiv_two_ge_one) simp
      have "a sdiv 2 < a" using "1.prems" by (simp add: sdiv_nonneg_eq_div)
      with "1.prems" have less: "a sdiv 2 * b < a * b" by simp
      with "1.prems" have small: "a sdiv 2 * b < 2 ^ 63" by linarith
      have guard': "mulInt64 (a sdiv 2) b = a sdiv 2 * b"
        using half "1.prems" small by (intro guard_no_overflow) simp_all
      from "1.IH"(1) [OF \<open>4 < mulInt64 a b\<close> True half "1.prems"(2) small] less True
        \<open>4 < mulInt64 a b\<close>
      show ?thesis
        by (simp add: accBlocksTrace.simps [of a b] successively_Cons accBlocksTrace_hd
              blockProduct64_def guard guard')
    next
      case False
      with prod "1.prems" have "2 \<le> b"
        by (intro tie_or_smaller_ge_two [of a b]) simp_all
      then have half: "1 \<le> b sdiv 2" by (rule sdiv_two_ge_one)
      have "b sdiv 2 < b" using "1.prems" by (simp add: sdiv_nonneg_eq_div)
      with "1.prems" have less: "a * (b sdiv 2) < a * b" by simp
      with "1.prems" have small: "a * (b sdiv 2) < 2 ^ 63" by linarith
      have guard': "mulInt64 a (b sdiv 2) = a * (b sdiv 2)"
        using half "1.prems" small by (intro guard_no_overflow) simp_all
      from "1.IH"(2) [OF \<open>4 < mulInt64 a b\<close> False "1.prems"(1) half small] less False
        \<open>4 < mulInt64 a b\<close>
      show ?thesis
        by (simp add: accBlocksTrace.simps [of a b] successively_Cons accBlocksTrace_hd
              blockProduct64_def guard guard')
    qed
  qed
qed

lemma initial_blocks_ge_one: "8 \<le> (m::int) \<Longrightarrow> 1 \<le> m sdiv min m 16"
proof (cases "m \<le> 16")
  case True
  assume "8 \<le> m"
  with True show ?thesis by (simp add: sdiv_nonneg_eq_div min_def)
next
  case False
  then have "1 \<le> m div 16" by presburger
  with False show ?thesis by (simp add: sdiv_nonneg_eq_div min_def)
qed

text \<open>
  Claim C10.  \<open>accBlocksLoop\<close> is a total function: the loop ends on every input.  For an
  input with \<open>M \<ge> 8\<close> and \<open>N \<ge> 8\<close> the size planner returns, the block extents it stores
  are the last state of the loop, both are at least 1, and the product of the two extents
  is strictly smaller after every iteration: every iteration halves the larger extent (or
  \<open>accBlocksN\<close> at a tie), which is at least 2.  In every state but the last the product
  and the 64-bit product that the loop tests are above 4; in the last state the 64-bit
  product is at most 4.  When the product of the initial extents is a 64-bit value, the
  64-bit product is the product, and it is strictly smaller after every iteration as well.
\<close>

theorem halving_loop_terminates:
  assumes "8 \<le> m" and "8 \<le> n"
    and "dimAt resShape 0 = Some m" and "dimAt resShape 1 = Some n"
    and "dimAt lhsShape 1 = Some k"
    and "lhsTileElemTy candidate = Some ty" and "0 < getIntOrFloatBitWidth ty"
  shows "\<exists>c. setupBlockAndTileSizes lhsShape resShape candidate = Some c \<and>
           (tilesInBlockM c, tilesInBlockN c)
             = last (accBlocksTrace (m sdiv min m 16) (n sdiv min n 16)) \<and>
           1 \<le> tilesInBlockM c \<and> 1 \<le> tilesInBlockN c \<and>
           successively (\<lambda>s t. blockProduct t < blockProduct s)
             (accBlocksTrace (m sdiv min m 16) (n sdiv min n 16)) \<and>
           (\<forall>s \<in> set (butlast (accBlocksTrace (m sdiv min m 16) (n sdiv min n 16))).
              4 < blockProduct s \<and> 4 < blockProduct64 s) \<and>
           blockProduct64 (last (accBlocksTrace (m sdiv min m 16) (n sdiv min n 16))) \<le> 4 \<and>
           ((m sdiv min m 16) * (n sdiv min n 16) < 2 ^ 63 \<longrightarrow>
              successively (\<lambda>s t. blockProduct64 t < blockProduct64 s)
                (accBlocksTrace (m sdiv min m 16) (n sdiv min n 16)))"
proof -
  let ?a = "m sdiv min m 16" and ?b = "n sdiv min n 16"
  obtain bm bn where loop: "accBlocksLoop ?a ?b = (bm, bn)" by fastforce
  have a: "1 \<le> ?a" using assms(1) by (rule initial_blocks_ge_one)
  have b: "1 \<le> ?b" using assms(2) by (rule initial_blocks_ge_one)
  let ?c = "candidate\<lparr>tileM := min m 16, tileN := min n 16,
              tileK := min k (512 sdiv int (getIntOrFloatBitWidth ty)),
              tilesInBlockM := bm, tilesInBlockN := bn\<rparr>"
  have run: "setupBlockAndTileSizes lhsShape resShape candidate = Some ?c"
    using assms loop by (simp add: setupBlockAndTileSizes_def Let_def min_def)
  have last: "(bm, bn) = last (accBlocksTrace ?a ?b)"
    using accBlocksLoop_last_trace [of ?a ?b] loop by simp
  have pos: "1 \<le> bm \<and> 1 \<le> bn" using accBlocksLoop_positive [OF a b] loop by simp
  have le4: "blockProduct64 (last (accBlocksTrace ?a ?b)) \<le> 4"
    using accBlocksLoop_exit [of ?a ?b] accBlocksLoop_last_trace [of ?a ?b]
    by (simp add: blockProduct64_def)
  have above: "\<forall>s \<in> set (butlast (accBlocksTrace ?a ?b)).
                 4 < blockProduct s \<and> 4 < blockProduct64 s"
    using accBlocksTrace_above_4 [OF a b] accBlocksTrace_guard by blast
  have dec64: "?a * ?b < 2 ^ 63 \<longrightarrow>
                 successively (\<lambda>s t. blockProduct64 t < blockProduct64 s)
                   (accBlocksTrace ?a ?b)"
    using accBlocksTrace_decreasing64 [OF a b] by blast
  show ?thesis
    using run last pos le4 above dec64 accBlocksTrace_decreasing [OF a b]
    by (intro exI [of _ ?c]) simp
qed

text \<open>Scenario D: 64\<times>64 in 16\<times>16 tiles goes from 4\<times>4 over 4\<times>2 to 2\<times>2.\<close>

theorem halving_loop_terminates_witness:
  "accBlocksTrace (64 sdiv min 64 16) (64 sdiv min 64 16) = [(4, 4), (4, 2), (2, 2)] \<and>
   (\<exists>c. setupBlockAndTileSizes [64, 64] [64, 64]
           (defaultCandidate 0 0 0 0 0\<lparr>lhsTileElemTy := Some (IntegerType 8)\<rparr>) = Some c \<and>
         (tilesInBlockM c, tilesInBlockN c) = (2, 2))"
proof -
  have t: "accBlocksTrace (64 sdiv min 64 16) (64 sdiv min 64 16) = [(4, 4), (4, 2), (2, 2)]"
    by (simp add: accBlocksTrace.simps mulInt64_def toInt64_def)
  have d0: "dimAt [64, 64] 0 = Some 64" and d1: "dimAt [64, 64] 1 = Some 64"
    by (simp_all add: dimAt_def)
  have ty: "lhsTileElemTy (defaultCandidate 0 0 0 0 0\<lparr>lhsTileElemTy := Some (IntegerType 8)\<rparr>)
              = Some (IntegerType 8)"
    by simp
  have bw: "0 < getIntOrFloatBitWidth (IntegerType 8)" by simp
  have m: "(8::int) \<le> 64" by simp
  from halving_loop_terminates [OF m m d0 d1 d1 ty bw]
  obtain c where "setupBlockAndTileSizes [64, 64] [64, 64]
           (defaultCandidate 0 0 0 0 0\<lparr>lhsTileElemTy := Some (IntegerType 8)\<rparr>) = Some c"
    and "(tilesInBlockM c, tilesInBlockN c)
           = last (accBlocksTrace (64 sdiv min 64 16) (64 sdiv min 64 16))"
    by blast
  then have "setupBlockAndTileSizes [64, 64] [64, 64]
           (defaultCandidate 0 0 0 0 0\<lparr>lhsTileElemTy := Some (IntegerType 8)\<rparr>) = Some c \<and>
         (tilesInBlockM c, tilesInBlockN c) = (2, 2)"
    unfolding t by simp
  with t show ?thesis by blast
qed

section \<open>The pass with every capability disabled\<close>

text \<open>
  Claim C9.  With the three capability flags off, \<open>runOnOperation\<close> returns at once: no
  candidate is collected and the unit is the one it was given; the conversion is not
  applied, so nothing is created, replaced or erased.
\<close>

theorem runOnOperation_all_disabled:
  "runOnOperation walk convert fresh False False False unit = Some ([], unit)"
  by (simp add: runOnOperation_def)

theorem runOnOperation_all_disabled_witness:
  "runOnOperation dotsOf removeConverted (defaultCandidate 0 0 0 0 0) False False False
     [int8Dot 16 16 64 False] = Some ([], [int8Dot 16 16 64 False])"
  by (rule runOnOperation_all_disabled)

text \<open>With the 8-bit integer capability on, the same unit is converted.\<close>

lemma runOnOperation_int8_enabled:
  "runOnOperation dotsOf removeConverted (defaultCandidate 0 0 0 0 0) True False False
     [int8Dot 16 16 64 False] =
   Some ([exampleCandidate (int8Dot 16 16 64 False) (IntegerType 8) (IntegerType 32)
            16 16 64 1 1 False False], [])"
proof -
  have "isAmxCandidate (int8Dot 16 16 64 False) True False False (defaultCandidate 0 0 0 0 0) =
   Some (True, exampleCandidate (int8Dot 16 16 64 False) (IntegerType 8) (IntegerType 32)
                 16 16 64 1 1 False False)"
    by (simp add: analysis_defs)
  then show ?thesis
    by (simp add: runOnOperation_def dotsOf_def removeConverted_def exampleCandidate_def)
qed

section \<open>Packing is a lossless permutation\<close>

lemma length_op_interleave:
  "length (op_interleave xs ys) = 2 * min (length xs) (length ys)"
  by (induction xs ys rule: op_interleave.induct) simp_all

lemma nth_op_interleave:
  "c < length xs \<Longrightarrow> c < length ys \<Longrightarrow>
   op_interleave xs ys ! (2 * c) = xs ! c \<and> op_interleave xs ys ! (2 * c + 1) = ys ! c"
proof (induction xs ys arbitrary: c rule: op_interleave.induct)
  case (1 x xs y ys)
  show ?case
  proof (cases c)
    case 0
    then show ?thesis by simp
  next
    case (Suc c')
    with "1.prems" have "c' < length xs" "c' < length ys" by simp_all
    from "1.IH" [OF this] Suc show ?thesis by simp
  qed
qed simp_all

lemma mset_op_interleave:
  "length xs = length ys \<Longrightarrow> mset (op_interleave xs ys) = mset xs + mset ys"
  by (induction xs ys rule: op_interleave.induct) simp_all

lemma lane_two:
  assumes "length xs = length ys"
  shows "lane 2 0 (op_interleave xs ys) = xs" and "lane 2 1 (op_interleave xs ys) = ys"
proof -
  have len: "length (op_interleave xs ys) div 2 = length xs"
    using assms by (simp add: length_op_interleave)
  show "lane 2 0 (op_interleave xs ys) = xs"
    using assms nth_op_interleave [of _ xs ys]
    by (intro nth_equalityI) (simp_all add: lane_def len mult.commute)
  show "lane 2 1 (op_interleave xs ys) = ys"
    using assms nth_op_interleave [of _ xs ys]
    by (intro nth_equalityI) (simp_all add: lane_def len mult.commute)
qed

lemma nth_packed_four:
  assumes "length a = n" "length b = n" "length c = n" "length d = n" "k < n"
  shows "op_interleave (op_interleave a b) (op_interleave c d) ! (k * 4) = a ! k"
    and "op_interleave (op_interleave a b) (op_interleave c d) ! (k * 4 + 1) = c ! k"
    and "op_interleave (op_interleave a b) (op_interleave c d) ! (k * 4 + 2) = b ! k"
    and "op_interleave (op_interleave a b) (op_interleave c d) ! (k * 4 + 3) = d ! k"
proof -
  let ?ab = "op_interleave a b" and ?cd = "op_interleave c d"
  have lab: "length ?ab = 2 * n" and lcd: "length ?cd = 2 * n"
    using assms by (simp_all add: length_op_interleave)
  have e: "2 * k < length ?ab" "2 * k < length ?cd" "2 * k + 1 < length ?ab"
    "2 * k + 1 < length ?cd"
    using assms(5) lab lcd by simp_all
  have i0: "k * 4 = 2 * (2 * k)" and i1: "k * 4 + 1 = 2 * (2 * k) + 1"
    and i2: "k * 4 + 2 = 2 * (2 * k + 1)" and i3: "k * 4 + 3 = 2 * (2 * k + 1) + 1"
    by simp_all
  have kk: "k < length a" "k < length b" "k < length c" "k < length d" using assms by simp_all
  show "op_interleave ?ab ?cd ! (k * 4) = a ! k"
    unfolding i0 using nth_op_interleave [OF e(1) e(2)] nth_op_interleave [OF kk(1) kk(2)]
    by simp
  show "op_interleave ?ab ?cd ! (k * 4 + 1) = c ! k"
    unfolding i1 using nth_op_interleave [OF e(1) e(2)] nth_op_interleave [OF kk(3) kk(4)]
    by simp
  show "op_interleave ?ab ?cd ! (k * 4 + 2) = b ! k"
    unfolding i2 using nth_op_interleave [OF e(3) e(4)] nth_op_interleave [OF kk(1) kk(2)]
    by simp
  show "op_interleave ?ab ?cd ! (k * 4 + 3) = d ! k"
    unfolding i3 using nth_op_interleave [OF e(3) e(4)] nth_op_interleave [OF kk(3) kk(4)]
    by simp
qed


lemma packedGroup_nth:
  assumes r: "rowsPerGroup = 2 \<or> rowsPerGroup = 4"
    and rect: "\<forall>row \<in> set val. length row = cols"
    and g: "(g + 1) * rowsPerGroup \<le> length val"
    and c: "c < cols" and j: "j < rowsPerGroup"
  shows "packedGroup rowsPerGroup val g ! (c * rowsPerGroup + j) = val ! (g * rowsPerGroup + j) ! c"
proof -
  have len: "length (val ! (g * rowsPerGroup + i)) = cols" if "i < rowsPerGroup" for i
  proof -
    from that g have "g * rowsPerGroup + i < length val" by simp
    then have "val ! (g * rowsPerGroup + i) \<in> set val" by (rule nth_mem)
    with rect show ?thesis by simp
  qed
  from r show ?thesis
  proof
    assume r2: "rowsPerGroup = 2"
    have l0: "c < length (val ! (2 * g))" and l1: "c < length (val ! (2 * g + 1))"
      using len [of 0] len [of 1] c r2 by (simp_all add: mult.commute)
    from j r2 have "j = 0 \<or> j = 1" by auto
    then show ?thesis
      using nth_op_interleave [OF l0 l1] r2
      by (auto simp: packedGroup_def mult.commute)
  next
    assume r4: "rowsPerGroup = 4"
    have l: "length (val ! (4 * g)) = cols" "length (val ! (4 * g + 2)) = cols"
      "length (val ! (4 * g + 1)) = cols" "length (val ! (4 * g + 3)) = cols"
      using len [of 0] len [of 1] len [of 2] len [of 3] r4 by (simp_all add: mult.commute)
    from j r4 have "j = 0 \<or> j = 1 \<or> j = 2 \<or> j = 3" by auto
    then show ?thesis
      using nth_packed_four [OF l c] r4
      by (auto simp: packedGroup_def mult.commute)
  qed
qed

lemma length_packedGroup:
  assumes r: "rowsPerGroup = 2 \<or> rowsPerGroup = 4"
    and rect: "\<forall>row \<in> set val. length row = cols"
    and g: "(g + 1) * rowsPerGroup \<le> length val"
  shows "length (packedGroup rowsPerGroup val g) = cols * rowsPerGroup"
proof -
  have len: "length (val ! (g * rowsPerGroup + i)) = cols" if "i < rowsPerGroup" for i
  proof -
    from that g have "g * rowsPerGroup + i < length val" by simp
    then have "val ! (g * rowsPerGroup + i) \<in> set val" by (rule nth_mem)
    with rect show ?thesis by simp
  qed
  from r show ?thesis
  proof
    assume r2: "rowsPerGroup = 2"
    then show ?thesis using len [of 0] len [of 1]
      by (simp add: packedGroup_def length_op_interleave mult.commute)
  next
    assume r4: "rowsPerGroup = 4"
    then show ?thesis using len [of 0] len [of 1] len [of 2] len [of 3]
      by (simp add: packedGroup_def length_op_interleave mult.commute)
  qed
qed

lemma unpack_packedGroup:
  assumes r: "rowsPerGroup = 2 \<or> rowsPerGroup = 4"
    and rect: "\<forall>row \<in> set val. length row = cols"
    and g: "(g + 1) * rowsPerGroup \<le> length val"
  shows "map (\<lambda>j. lane rowsPerGroup j (packedGroup rowsPerGroup val g)) [0..<rowsPerGroup]
         = rowGroup rowsPerGroup val g"
proof -
  have pos: "0 < rowsPerGroup" using r by auto
  have "lane rowsPerGroup j (packedGroup rowsPerGroup val g) = val ! (g * rowsPerGroup + j)"
    if j: "j < rowsPerGroup" for j
  proof (rule nth_equalityI)
    from j g have "g * rowsPerGroup + j < length val" by simp
    then have "val ! (g * rowsPerGroup + j) \<in> set val" by (rule nth_mem)
    with rect have l: "length (val ! (g * rowsPerGroup + j)) = cols" by simp
    show "length (lane rowsPerGroup j (packedGroup rowsPerGroup val g))
            = length (val ! (g * rowsPerGroup + j))"
      using pos by (simp add: lane_def length_packedGroup [OF r rect g] l)
    fix c assume "c < length (lane rowsPerGroup j (packedGroup rowsPerGroup val g))"
    then have c: "c < cols" using pos by (simp add: lane_def length_packedGroup [OF r rect g])
    show "lane rowsPerGroup j (packedGroup rowsPerGroup val g) ! c
            = val ! (g * rowsPerGroup + j) ! c"
      using c pos packedGroup_nth [OF r rect g c j]
      by (simp add: lane_def length_packedGroup [OF r rect g])
  qed
  then show ?thesis by (simp add: rowGroup_def)
qed

lemma mset_packedGroup:
  assumes r: "rowsPerGroup = 2 \<or> rowsPerGroup = 4"
    and rect: "\<forall>row \<in> set val. length row = cols"
    and g: "(g + 1) * rowsPerGroup \<le> length val"
  shows "mset (packedGroup rowsPerGroup val g) = mset (concat (rowGroup rowsPerGroup val g))"
proof -
  have len: "length (val ! (g * rowsPerGroup + i)) = cols" if "i < rowsPerGroup" for i
  proof -
    from that g have "g * rowsPerGroup + i < length val" by simp
    then have "val ! (g * rowsPerGroup + i) \<in> set val" by (rule nth_mem)
    with rect show ?thesis by simp
  qed
  from r show ?thesis
  proof
    assume r2: "rowsPerGroup = 2"
    have u: "[0..<2] = [0, Suc 0]" by (simp add: upt_rec)
    from r2 show ?thesis using len [of 0] len [of 1]
      by (simp add: packedGroup_def rowGroup_def mset_op_interleave u mult.commute)
  next
    assume r4: "rowsPerGroup = 4"
    have u: "[0..<4] = [0, 1, 2, 3]" by (simp add: upt_rec)
    from r4 show ?thesis using len [of 0] len [of 1] len [of 2] len [of 3]
      by (simp add: packedGroup_def rowGroup_def mset_op_interleave length_op_interleave u
            mult.commute)
  qed
qed

lemma concat_rowGroups_take:
  "G * r \<le> length val \<Longrightarrow> concat (map (rowGroup r val) [0..<G]) = take (G * r) val"
proof (induction G)
  case 0
  then show ?case by simp
next
  case (Suc G)
  have grp: "rowGroup r val G = take r (drop (G * r) val)"
    using Suc.prems by (intro nth_equalityI) (simp_all add: rowGroup_def)
  have "concat (map (rowGroup r val) [0..<Suc G])
          = concat (map (rowGroup r val) [0..<G]) @ rowGroup r val G"
    by simp
  also have "\<dots> = take (G * r) val @ take r (drop (G * r) val)"
    using Suc grp by simp
  also have "\<dots> = take (G * r + r) val" by (rule take_add [symmetric])
  also have "G * r + r = Suc G * r" by simp
  finally show ?case .
qed

lemma concat_rowGroups:
  "length val = G * r \<Longrightarrow> concat (map (rowGroup r val) [0..<G]) = val"
  by (simp add: concat_rowGroups_take)


lemma groupRows_packedGroup:
  assumes r: "rowsPerGroup = 2 \<or> rowsPerGroup = 4"
    and g: "(g + 1) * rowsPerGroup \<le> length val"
  shows "\<exists>row1 row2. groupRows rowsPerGroup val (g * rowsPerGroup) = Some (row1, row2) \<and>
           op_interleave row1 row2 = packedGroup rowsPerGroup val g"
  using r
proof
  assume "rowsPerGroup = 2"
  with g show ?thesis
    by (simp add: groupRows_def op_extract_def packedGroup_def mult.commute)
next
  assume "rowsPerGroup = 4"
  with g show ?thesis
    by (simp add: groupRows_def op_extract_def packedGroup_def mult.commute)
qed

lemma interleaveLoop_result:
  assumes r: "rowsPerGroup = 2 \<or> rowsPerGroup = 4"
    and len: "length val = G * rowsPerGroup"
  shows "g \<le> G \<Longrightarrow> length buf = G \<Longrightarrow>
         interleaveLoop rowsPerGroup (g * rowsPerGroup) val buf
           = Some (take g buf @ map (packedGroup rowsPerGroup val) [g..<G])"
proof (induction "G - g" arbitrary: g buf)
  case 0
  then have "g = G" by simp
  with 0 len r show ?case by (auto simp add: interleaveLoop.simps [of _ "G * rowsPerGroup"])
next
  case (Suc d)
  from Suc.hyps(2) Suc.prems have gG: "g < G" by simp
  have pos: "0 < rowsPerGroup" using r by auto
  from gG have "(g + 1) * rowsPerGroup \<le> G * rowsPerGroup" by (intro mult_le_mono1) simp
  then have grp: "(g + 1) * rowsPerGroup \<le> length val" by (simp add: len)
  then have lt: "g * rowsPerGroup < length val" using pos by simp
  from groupRows_packedGroup [OF r grp] obtain row1 row2 where
    rows: "groupRows rowsPerGroup val (g * rowsPerGroup) = Some (row1, row2)"
      "op_interleave row1 row2 = packedGroup rowsPerGroup val g"
    by blast
  let ?buf = "buf[g := packedGroup rowsPerGroup val g]"
  have st: "op_store (packedGroup rowsPerGroup val g) buf (g * rowsPerGroup div rowsPerGroup)
              = Some ?buf"
    using gG Suc.prems pos by (simp add: op_store_def)
  have next_i: "g * rowsPerGroup + rowsPerGroup = Suc g * rowsPerGroup" by simp
  have IH: "interleaveLoop rowsPerGroup (Suc g * rowsPerGroup) val ?buf
              = Some (take (Suc g) ?buf @ map (packedGroup rowsPerGroup val) [Suc g..<G])"
    using Suc.hyps(2) gG Suc.prems by (intro Suc.hyps(1)) simp_all
  have tk: "take (Suc g) ?buf = take g buf @ [packedGroup rowsPerGroup val g]"
    using gG Suc.prems by (simp add: take_Suc_conv_app_nth)
  have "interleaveLoop rowsPerGroup (g * rowsPerGroup) val buf
          = interleaveLoop rowsPerGroup (Suc g * rowsPerGroup) val ?buf"
    using pos lt rows st
    by (subst interleaveLoop.simps) (simp add: next_i del: mult_Suc)
  also have "\<dots> = Some (take g buf @ map (packedGroup rowsPerGroup val) [g..<G])"
    using gG by (simp add: IH tk upt_conv_Cons del: mult_Suc)
  finally show ?case .
qed

lemma mset_concat_packed:
  assumes "\<And>g. g \<in> set gs \<Longrightarrow> mset (f g) = mset (concat (h g))"
  shows "mset (concat (map f gs)) = mset (concat (concat (map h gs)))"
  using assms by (induction gs) simp_all

text \<open>
  Claim C6.  For an element type with \<open>rowsPerGroup = 32 div bitwidth\<close> equal to 2 or 4, a
  vector of rows of one length whose row count is a multiple of \<open>rowsPerGroup\<close>, and a
  buffer with one row per group, \<open>interleaveAndStore\<close> succeeds; the buffer then holds one
  packed row per group, the lane at column \<open>c\<close> of packed row \<open>g\<close> holds the elements at
  column \<open>c\<close> of the \<open>rowsPerGroup\<close> rows of group \<open>g\<close> in row order, unpacking gives back
  the vector, rows and values in their order, and the packed elements are a permutation of
  the elements of the vector.
\<close>

theorem interleave_roundtrip:
  assumes bits: "rowsPerGroup = 32 div getIntOrFloatBitWidth elemTy"
    and r: "rowsPerGroup = 2 \<or> rowsPerGroup = 4"
    and rect: "\<forall>row \<in> set val. length row = cols"
    and rows: "length val mod rowsPerGroup = 0"
    and buf: "length buf = length val div rowsPerGroup"
  shows "\<exists>packed. interleaveAndStore elemTy val buf = Some packed \<and>
           length packed = length val div rowsPerGroup \<and>
           (\<forall>row \<in> set packed. length row = cols * rowsPerGroup) \<and>
           (\<forall>g < length packed. \<forall>c < cols. \<forall>j < rowsPerGroup.
              packed ! g ! (c * rowsPerGroup + j) = val ! (g * rowsPerGroup + j) ! c) \<and>
           unpackRows rowsPerGroup packed = val \<and>
           mset (concat packed) = mset (concat val)"
proof -
  define G where "G = length val div rowsPerGroup"
  have pos: "0 < rowsPerGroup" using r by auto
  have len: "length val = G * rowsPerGroup" using rows by (auto simp: G_def)
  have width: "getIntOrFloatBitWidth elemTy \<noteq> 0" using bits r by (auto intro: ccontr)
  let ?packed = "map (packedGroup rowsPerGroup val) [0..<G]"
  have grp: "(g + 1) * rowsPerGroup \<le> length val" if "g < G" for g
  proof -
    from that have "(g + 1) * rowsPerGroup \<le> G * rowsPerGroup" by (intro mult_le_mono1) simp
    then show ?thesis by (simp add: len)
  qed
  have "interleaveLoop rowsPerGroup (0 * rowsPerGroup) val buf
          = Some (take 0 buf @ map (packedGroup rowsPerGroup val) [0..<G])"
    using buf by (intro interleaveLoop_result [OF r len]) (simp_all add: G_def)
  then have run: "interleaveAndStore elemTy val buf = Some ?packed"
    using width r rows bits by (simp add: interleaveAndStore_def Let_def)
  have l: "length ?packed = length val div rowsPerGroup" by (simp add: G_def)
  have w: "\<forall>row \<in> set ?packed. length row = cols * rowsPerGroup"
    using length_packedGroup [OF r rect grp] by auto
  have idx: "\<forall>g < length ?packed. \<forall>c < cols. \<forall>j < rowsPerGroup.
              ?packed ! g ! (c * rowsPerGroup + j) = val ! (g * rowsPerGroup + j) ! c"
    using packedGroup_nth [OF r rect grp] by simp
  have eq: "map (\<lambda>g. map (\<lambda>j. lane rowsPerGroup j (packedGroup rowsPerGroup val g))
                    [0..<rowsPerGroup]) [0..<G]
          = map (rowGroup rowsPerGroup val) [0..<G]"
    using unpack_packedGroup [OF r rect grp] by (intro map_cong) simp_all
  have "unpackRows rowsPerGroup ?packed
          = concat (map (\<lambda>g. map (\<lambda>j. lane rowsPerGroup j (packedGroup rowsPerGroup val g))
                    [0..<rowsPerGroup]) [0..<G])"
    by (simp add: unpackRows_def comp_def)
  also have "\<dots> = concat (map (rowGroup rowsPerGroup val) [0..<G])"
    by (simp only: eq)
  also have "\<dots> = val" by (rule concat_rowGroups [OF len])
  finally have un: "unpackRows rowsPerGroup ?packed = val" .
  have "mset (concat ?packed)
          = mset (concat (concat (map (rowGroup rowsPerGroup val) [0..<G])))"
    using mset_packedGroup [OF r rect grp] by (intro mset_concat_packed) simp
  then have ms: "mset (concat ?packed) = mset (concat val)"
    by (simp add: concat_rowGroups [OF len])
  from run l w idx un ms show ?thesis by blast
qed

text \<open>
  Four rows of 8-bit elements make one group; the packed row lists the columns one after
  the other.
\<close>

theorem interleave_roundtrip_witness:
  "interleaveAndStore (IntegerType 8) [[1, 2], [3, 4], [5, 6], [7, 8 :: nat]] [[]]
     = Some [[1, 3, 5, 7, 2, 4, 6, 8]] \<and>
   unpackRows 4 [[1, 3, 5, 7, 2, 4, 6, 8 :: nat]] = [[1, 2], [3, 4], [5, 6], [7, 8]]"
proof -
  have run: "interleaveAndStore (IntegerType 8) [[1, 2], [3, 4], [5, 6], [7, 8 :: nat]] [[]]
               = Some [[1, 3, 5, 7, 2, 4, 6, 8]]"
    by (simp add: interleaveAndStore_def interleaveLoop.simps groupRows_def op_extract_def
          op_store_def)
  from interleave_roundtrip [of 4 "IntegerType 8" "[[1, 2], [3, 4], [5, 6], [7, 8 :: nat]]" 2
         "[[]]"]
  obtain packed where
    "interleaveAndStore (IntegerType 8) [[1, 2], [3, 4], [5, 6], [7, 8 :: nat]] [[]]
       = Some packed"
    and "unpackRows 4 packed = [[1, 2], [3, 4], [5, 6], [7, 8]]"
    by auto
  with run show ?thesis by simp
qed

section \<open>The multiplies of an accumulator block\<close>

lemma emits_refl: "emits b 0 rw rw"
  by (simp add: emits_def)

lemma emits_trans:
  assumes "emits b j rw rw1" and "emits b k rw1 rw2"
  shows "emits b (j + k) rw rw2"
proof -
  from assms(1) obtain new1 where n1: "created rw1 = created rw @ new1"
    "length (filter isTileMul new1) = j"
    "\<forall>operation \<in> set new1. isTileMul operation \<longrightarrow>
         (if b then isTileMulI operation else isTileMulF operation)"
    unfolding emits_def by blast
  from assms(2) obtain new2 where n2: "created rw2 = created rw1 @ new2"
    "length (filter isTileMul new2) = k"
    "\<forall>operation \<in> set new2. isTileMul operation \<longrightarrow>
         (if b then isTileMulI operation else isTileMulF operation)"
    unfolding emits_def by blast
  have "created rw2 = created rw @ (new1 @ new2)" using n1(1) n2(1) by simp
  moreover have "length (filter isTileMul (new1 @ new2)) = j + k" using n1(2) n2(2) by simp
  moreover have "\<forall>operation \<in> set (new1 @ new2). isTileMul operation \<longrightarrow>
         (if b then isTileMulI operation else isTileMulF operation)"
    using n1(3) n2(3) by auto
  ultimately show ?thesis unfolding emits_def by blast
qed

lemma emits_createValue_other:
  "\<not> isTileMul operation \<Longrightarrow> emits b 0 rw (snd (createValue operation rw))"
  by (simp add: emits_def createValue_def)

lemma emits_createOp_other:
  "\<not> isTileMul operation \<Longrightarrow> emits b 0 rw (createOp operation rw)"
  by (simp add: emits_def createOp_def)

lemma emits_createValue_mul:
  "emits (isInteger (tileElementType accTileTy)) 1 rw
     (snd (if isInteger (tileElementType accTileTy)
           then createValue (TileMulIOp accTileTy l r a) rw
           else createValue (TileMulFOp accTileTy l r a) rw))"
  by (simp add: emits_def createValue_def isTileMul_def)

lemma forLoop_append:
  "forLoop (xs @ ys) body s =
     (case forLoop xs body s of None \<Rightarrow> None | Some s' \<Rightarrow> forLoop ys body s')"
  by (induction xs arbitrary: s) (simp_all split: option.splits)

lemma forLoop_upt:
  fixes s :: "'t \<times> Rewriter"
  assumes start: "P 0 s"
    and step: "\<And>i s. i < n \<Longrightarrow> P i s \<Longrightarrow>
                 \<exists>s'. body i s = Some s' \<and> P (Suc i) s' \<and> emits b k (snd s) (snd s')"
  shows "\<exists>s'. forLoop [0..<n] body s = Some s' \<and> P n s' \<and> emits b (n * k) (snd s) (snd s')"
  using step
proof (induction n)
  case 0
  with start show ?case by (simp add: emits_refl)
next
  case (Suc n)
  have "\<exists>s'. forLoop [0..<n] body s = Some s' \<and> P n s' \<and> emits b (n * k) (snd s) (snd s')"
    using Suc.prems by (intro Suc.IH) simp
  then obtain s1 where s1: "forLoop [0..<n] body s = Some s1" "P n s1"
    "emits b (n * k) (snd s) (snd s1)" by blast
  from Suc.prems [of n s1] s1(2) obtain s2 where s2: "body n s1 = Some s2" "P (Suc n) s2"
    "emits b k (snd s1) (snd s2)" by auto
  have "forLoop [0..<Suc n] body s = Some s2"
    using s1(1) s2(1) by (simp add: forLoop_append)
  moreover have "emits b (Suc n * k) (snd s) (snd s2)"
    using emits_trans [OF s1(3) s2(3)] by (simp add: add.commute)
  ultimately show ?case using s2(2) by blast
qed

lemma shiftIndices_Some:
  assumes "rank2 tileTy" and "2 \<le> length idxs"
  shows "\<exists>r. shiftIndices idxs tileTy a b c d e f = Some r"
proof -
  from assms(1) have "0 < length (tileShape tileTy)" "1 < length (tileShape tileTy)"
    unfolding rank2_def by linarith+
  then have "dimAt (tileShape tileTy) 0 = Some (tileShape tileTy ! 0)"
    "dimAt (tileShape tileTy) 1 = Some (tileShape tileTy ! 1)"
    by (simp_all add: dimAt_def)
  with assms(2) show ?thesis by (simp add: shiftIndices_def Let_def)
qed

lemma loadTile_emits:
  assumes "rank2 tileTy" and "usableBuffer buf"
  shows "\<exists>v rw'. loadTile tileTy buf a b' c d e f rw = Some (v, rw') \<and> emits b 0 rw rw'"
proof -
  from assms have "2 \<le> length (indices buf)" by (simp add: usableBuffer_def)
  from shiftIndices_Some [OF assms(1) this]
  obtain r where r: "shiftIndices (indices buf) tileTy a b' c d e f = Some r" by blast
  from assms(2) obtain mem where mem: "memRef buf = Some mem"
    by (auto simp: usableBuffer_def)
  obtain v rw' where c: "createValue (TileLoadOp tileTy mem r) rw = (v, rw')" by fastforce
  have "emits b 0 rw rw'"
    using emits_createValue_other [of "TileLoadOp tileTy mem r" b rw] c
    by (simp add: isTileMul_def)
  then show ?thesis using r mem c by (simp add: loadTile_def)
qed

lemma storeTile_emits:
  assumes "rank2 tileTy" and "usableBuffer buf"
  shows "\<exists>rw'. storeTile tileTy v buf a b' c d e f rw = Some rw' \<and> emits b 0 rw rw'"
proof -
  from assms have "2 \<le> length (indices buf)" by (simp add: usableBuffer_def)
  from shiftIndices_Some [OF assms(1) this]
  obtain r where r: "shiftIndices (indices buf) tileTy a b' c d e f = Some r" by blast
  from assms(2) obtain mem where mem: "memRef buf = Some mem"
    by (auto simp: usableBuffer_def)
  have "emits b 0 rw (createOp (TileStoreOp mem r v) rw)"
    by (rule emits_createOp_other) (simp add: isTileMul_def)
  then show ?thesis using r mem by (simp add: storeTile_def)
qed


lemma loadBlockTile_step:
  assumes ty: "rank2 tileTy"
    and buf: "memRef buf \<noteq> None \<longrightarrow> 2 \<le> length (indices buf)"
    and m: "m < length res"
  shows "\<exists>tile rw'. loadBlockTile tileTy buf tM tN bm bn m n (res, rw)
                        = Some (res[m := res ! m @ [tile]], rw') \<and> emits b 0 rw rw'"
proof (cases "memRef buf \<noteq> None")
  case True
  with buf have "usableBuffer buf" by (simp add: usableBuffer_def)
  from loadTile_emits [OF ty this, of tM tN bm bn "int m" "int n" rw b]
  obtain v rw' where "loadTile tileTy buf tM tN bm bn (int m) (int n) rw = Some (v, rw')"
    "emits b 0 rw rw'" by blast
  with True m show ?thesis by (auto simp: loadBlockTile_def)
next
  case False
  obtain v rw' where c: "createValue (TileZeroOp tileTy) rw = (v, rw')" by fastforce
  have "emits b 0 rw rw'"
    using emits_createValue_other [of "TileZeroOp tileTy" b rw] c by (simp add: isTileMul_def)
  with False m c show ?thesis by (auto simp: loadBlockTile_def)
qed

lemma loadBlockTiles_grid:
  assumes ty: "rank2 tileTy"
    and buf: "memRef buf \<noteq> None \<longrightarrow> 2 \<le> length (indices buf)"
    and M: "0 \<le> tM"
  shows "\<exists>tiles rw'. loadBlockTiles tileTy buf tM tN bm bn rw = Some (tiles, rw') \<and>
           tileGrid (nat tM) (nat tN) tiles \<and> emits b 0 rw rw'"
proof -
  let ?L = "nat tM" and ?W = "nat tN"
  define Pout :: "nat \<Rightarrow> Value list list \<times> Rewriter \<Rightarrow> bool" where
    "Pout m s \<longleftrightarrow> length (fst s) = ?L \<and> (\<forall>i<m. length (fst s ! i) = ?W) \<and>
                 (\<forall>i<?L. m \<le> i \<longrightarrow> fst s ! i = [])" for m s
  have outer: "\<exists>s'. forLoop [0..<?W] (loadBlockTile tileTy buf tM tN bm bn m) s = Some s' \<and>
                  Pout (Suc m) s' \<and> emits b 0 (snd s) (snd s')"
    if m: "m < ?L" and inv: "Pout m s" for m s
  proof -
    define Pin :: "nat \<Rightarrow> Value list list \<times> Rewriter \<Rightarrow> bool" where
      "Pin j t \<longleftrightarrow> length (fst t) = ?L \<and> length (fst t ! m) = j \<and>
                  (\<forall>i<?L. i \<noteq> m \<longrightarrow> fst t ! i = fst s ! i)" for j t
    have start: "Pin 0 s" using inv m by (simp add: Pin_def Pout_def)
    have step: "\<exists>t'. loadBlockTile tileTy buf tM tN bm bn m j t = Some t' \<and> Pin (Suc j) t' \<and>
                  emits b 0 (snd t) (snd t')"
      if "j < ?W" and pin: "Pin j t" for j t
    proof -
      obtain res rw1 where t: "t = (res, rw1)" by (cases t)
      from pin t m have ml: "m < length res" by (simp add: Pin_def)
      from loadBlockTile_step [OF ty buf ml, of tM tN bm bn j rw1 b]
      obtain tile rw' where
        "loadBlockTile tileTy buf tM tN bm bn m j (res, rw1)
           = Some (res[m := res ! m @ [tile]], rw')" "emits b 0 rw1 rw'" by blast
      with pin t ml show ?thesis by (auto simp: Pin_def)
    qed
    from forLoop_upt [of Pin s ?W "loadBlockTile tileTy buf tM tN bm bn m" b 0, OF start step]
    obtain s' where s': "forLoop [0..<?W] (loadBlockTile tileTy buf tM tN bm bn m) s = Some s'"
      "Pin ?W s'" "emits b 0 (snd s) (snd s')" by auto
    have "Pout (Suc m) s'"
      using s'(2) inv m by (auto simp: Pin_def Pout_def less_Suc_eq)
    with s' show ?thesis by blast
  qed
  have start: "Pout 0 (replicate ?L [], rw)" by (simp add: Pout_def)
  from forLoop_upt [of Pout "(replicate ?L [], rw)" ?L
         "\<lambda>m. forLoop [0..<?W] (loadBlockTile tileTy buf tM tN bm bn m)" b 0, OF start outer]
  obtain s' where s': "forLoop [0..<?L]
        (\<lambda>m. forLoop [0..<?W] (loadBlockTile tileTy buf tM tN bm bn m)) (replicate ?L [], rw)
          = Some s'" "Pout ?L s'" "emits b 0 rw (snd s')" by auto
  obtain tiles rw' where sp: "s' = (tiles, rw')" by (cases s')
  have "tileGrid ?L ?W tiles"
    using s'(2) sp by (auto simp: Pout_def tileGrid_def in_set_conv_nth)
  with s' sp M show ?thesis by (simp add: loadBlockTiles_def)
qed

lemma multiplyTile_emits:
  assumes grid: "tileGrid gm gn accTiles" and m: "m < gm" and n: "n < gn"
    and store: "storeResult \<longrightarrow> rank2 accTileTy \<and> usableBuffer accBuf"
  shows "\<exists>accTiles' rw'.
           multiplyTile accTileTy accBuf bm bn tM tN storeResult lhsTile rhsTile m n (accTiles, rw)
             = Some (accTiles', rw') \<and>
           tileGrid gm gn accTiles' \<and> emits (isInteger (tileElementType accTileTy)) 1 rw rw'"
proof -
  from grid m have ml: "m < length accTiles" by (simp add: tileGrid_def)
  then have "accTiles ! m \<in> set accTiles" by (rule nth_mem)
  with grid n have nl: "n < length (accTiles ! m)" by (simp add: tileGrid_def)
  let ?acc = "accTiles ! m ! n"
  obtain v rw1 where c:
    "(if isInteger (tileElementType accTileTy)
      then createValue (TileMulIOp accTileTy lhsTile rhsTile ?acc) rw
      else createValue (TileMulFOp accTileTy lhsTile rhsTile ?acc) rw) = (v, rw1)"
    by fastforce
  have e1: "emits (isInteger (tileElementType accTileTy)) 1 rw rw1"
    using emits_createValue_mul [of accTileTy rw lhsTile rhsTile ?acc] c by simp
  let ?tiles = "accTiles[m := (accTiles ! m)[n := v]]"
  have g': "tileGrid gm gn ?tiles"
    using grid ml by (auto simp: tileGrid_def dest!: set_update_subset_insert [THEN subsetD])
  show ?thesis
  proof (cases storeResult)
    case False
    with ml nl c e1 g' show ?thesis
      by (simp add: multiplyTile_def tileAt_def setTileAt_def)
  next
    case True
    with store have "rank2 accTileTy" "usableBuffer accBuf" by simp_all
    from storeTile_emits [OF this, of v tM tN bm bn "int m" "int n" rw1
           "isInteger (tileElementType accTileTy)"]
    obtain rw2 where st: "storeTile accTileTy v accBuf tM tN bm bn (int m) (int n) rw1 = Some rw2"
      "emits (isInteger (tileElementType accTileTy)) 0 rw1 rw2" by blast
    from emits_trans [OF e1 st(2)] have "emits (isInteger (tileElementType accTileTy)) 1 rw rw2"
      by simp
    with True ml nl c st(1) g' show ?thesis
      by (simp add: multiplyTile_def tileAt_def setTileAt_def)
  qed
qed


lemma tileAt_grid:
  "tileGrid gm gn tiles \<Longrightarrow> m < gm \<Longrightarrow> n < gn \<Longrightarrow> tileAt tiles m n = Some (tiles ! m ! n)"
  by (simp add: tileGrid_def tileAt_def)

lemma multiplyBlocksPreloadLhs_emits:
  assumes tys: "rank2 lhsTileTy" "rank2 rhsTileTy"
    and bufs: "usableBuffer lhsBuf" "usableBuffer rhsBuf"
    and store: "storeResult \<longrightarrow> rank2 accTileTy \<and> usableBuffer accBuf"
    and tM: "0 \<le> tM"
    and grid: "tileGrid (nat tM) (nat tN) accTiles"
  shows "\<exists>accTiles' rw'.
           multiplyBlocksPreloadLhs lhsTileTy rhsTileTy accTileTy lhsBuf rhsBuf accBuf
             blockM blockN blockK tM tN accTiles storeResult rw = Some (accTiles', rw') \<and>
           tileGrid (nat tM) (nat tN) accTiles' \<and>
           emits (isInteger (tileElementType accTileTy)) (nat tN * nat tM) rw rw'"
proof -
  let ?b = "isInteger (tileElementType accTileTy)"
  let ?P = "\<lambda>(i::nat) (s :: Value list list \<times> Rewriter). tileGrid (nat tM) (nat tN) (fst s)"
  from bufs(1) have "memRef lhsBuf \<noteq> None \<longrightarrow> 2 \<le> length (indices lhsBuf)"
    by (simp add: usableBuffer_def)
  from loadBlockTiles_grid [OF tys(1) this tM, of 1 blockM blockK rw ?b]
  obtain lhsTiles rw1 where
    load: "loadBlockTiles lhsTileTy lhsBuf tM 1 blockM blockK rw = Some (lhsTiles, rw1)"
    and lg: "tileGrid (nat tM) 1 lhsTiles" and e0: "emits ?b 0 rw rw1"
    by auto
  let ?inner = "\<lambda>rhsTile tileN' tileM' s'.
                  tileAt lhsTiles tileM' 0 \<bind>
                  (\<lambda>lhsTile. multiplyTile accTileTy accBuf blockM blockN tM tN storeResult
                                lhsTile rhsTile tileM' tileN' s')"
  let ?outer = "\<lambda>tileN' s. case s of (accTiles1, rw2) \<Rightarrow>
          loadTile rhsTileTy rhsBuf 1 tN blockK blockN 0 (int tileN') rw2 \<bind>
          (\<lambda>(rhsTile, rw3). forLoop [0..<nat tM] (?inner rhsTile tileN') (accTiles1, rw3))"
  have outer_step: "\<exists>s'. ?outer n s = Some s' \<and> ?P (Suc n) s' \<and> emits ?b (nat tM) (snd s) (snd s')"
    if n: "n < nat tN" and inv: "?P n s" for n s
  proof -
    obtain acc1 rw2 where s: "s = (acc1, rw2)" by (cases s)
    from loadTile_emits [OF tys(2) bufs(2), of 1 tN blockK blockN 0 "int n" rw2 ?b]
    obtain rhsTile rw3 where
      lt: "loadTile rhsTileTy rhsBuf 1 tN blockK blockN 0 (int n) rw2 = Some (rhsTile, rw3)"
      and e1: "emits ?b 0 rw2 rw3" by blast
    have inner_step: "\<exists>t'. ?inner rhsTile n m t = Some t' \<and> ?P (Suc m) t' \<and>
                        emits ?b 1 (snd t) (snd t')"
      if m: "m < nat tM" and pin: "?P m t" for m t
    proof -
      obtain acc2 rw4 where t: "t = (acc2, rw4)" by (cases t)
      from pin t have g: "tileGrid (nat tM) (nat tN) acc2" by simp
      have la: "tileAt lhsTiles m 0 = Some (lhsTiles ! m ! 0)"
        using tileAt_grid [OF lg m, of 0] by simp
      from multiplyTile_emits [OF g m n store, of blockM blockN tM tN "lhsTiles ! m ! 0"
             rhsTile rw4]
      show ?thesis using la t by auto
    qed
    have start: "?P 0 (acc1, rw3)" using inv s by simp
    from forLoop_upt [of ?P "(acc1, rw3)" "nat tM" "?inner rhsTile n" ?b 1, OF start inner_step]
    obtain s' where s': "forLoop [0..<nat tM] (?inner rhsTile n) (acc1, rw3) = Some s'"
      "?P (nat tM) s'" "emits ?b (nat tM * 1) rw3 (snd s')" by auto
    from emits_trans [OF e1 s'(3)] have "emits ?b (nat tM) rw2 (snd s')" by simp
    with s s' lt show ?thesis by simp
  qed
  have start: "?P 0 (accTiles, rw1)" using grid by simp
  from forLoop_upt [of ?P "(accTiles, rw1)" "nat tN" ?outer ?b "nat tM", OF start outer_step]
  obtain s' where s': "forLoop [0..<nat tN] ?outer (accTiles, rw1) = Some s'"
    "?P (nat tN) s'" "emits ?b (nat tN * nat tM) rw1 (snd s')" by auto
  obtain acc' rw' where sp: "s' = (acc', rw')" by (cases s')
  from emits_trans [OF e0 s'(3)] have "emits ?b (nat tN * nat tM) rw rw'" using sp by simp
  with s' sp load show ?thesis
    by (simp add: multiplyBlocksPreloadLhs_def)
qed


lemma multiplyBlocksPreloadRhs_emits:
  assumes tys: "rank2 lhsTileTy" "rank2 rhsTileTy"
    and bufs: "usableBuffer lhsBuf" "usableBuffer rhsBuf"
    and store: "storeResult \<longrightarrow> rank2 accTileTy \<and> usableBuffer accBuf"
    and grid: "tileGrid (nat tM) (nat tN) accTiles"
  shows "\<exists>accTiles' rw'.
           multiplyBlocksPreloadRhs lhsTileTy rhsTileTy accTileTy lhsBuf rhsBuf accBuf
             blockM blockN blockK tM tN accTiles storeResult rw = Some (accTiles', rw') \<and>
           tileGrid (nat tM) (nat tN) accTiles' \<and>
           emits (isInteger (tileElementType accTileTy)) (nat tM * nat tN) rw rw'"
proof -
  let ?b = "isInteger (tileElementType accTileTy)"
  let ?P = "\<lambda>(i::nat) (s :: Value list list \<times> Rewriter). tileGrid (nat tM) (nat tN) (fst s)"
  from bufs(2) have "memRef rhsBuf \<noteq> None \<longrightarrow> 2 \<le> length (indices rhsBuf)"
    by (simp add: usableBuffer_def)
  from loadBlockTiles_grid [OF tys(2) this, of 1 tN blockK blockN rw ?b]
  obtain rhsTiles rw1 where
    load: "loadBlockTiles rhsTileTy rhsBuf 1 tN blockK blockN rw = Some (rhsTiles, rw1)"
    and rg: "tileGrid 1 (nat tN) rhsTiles" and e0: "emits ?b 0 rw rw1"
    by auto
  let ?inner = "\<lambda>lhsTile tileM' tileN' s'.
                  tileAt rhsTiles 0 tileN' \<bind>
                  (\<lambda>rhsTile. multiplyTile accTileTy accBuf blockM blockN tM tN storeResult
                                lhsTile rhsTile tileM' tileN' s')"
  let ?outer = "\<lambda>tileM' s. case s of (accTiles1, rw2) \<Rightarrow>
          loadTile lhsTileTy lhsBuf tM 1 blockM blockK (int tileM') 0 rw2 \<bind>
          (\<lambda>(lhsTile, rw3). forLoop [0..<nat tN] (?inner lhsTile tileM') (accTiles1, rw3))"
  have outer_step: "\<exists>s'. ?outer m s = Some s' \<and> ?P (Suc m) s' \<and> emits ?b (nat tN) (snd s) (snd s')"
    if m: "m < nat tM" and inv: "?P m s" for m s
  proof -
    obtain acc1 rw2 where s: "s = (acc1, rw2)" by (cases s)
    from loadTile_emits [OF tys(1) bufs(1), of tM 1 blockM blockK "int m" 0 rw2 ?b]
    obtain lhsTile rw3 where
      lt: "loadTile lhsTileTy lhsBuf tM 1 blockM blockK (int m) 0 rw2 = Some (lhsTile, rw3)"
      and e1: "emits ?b 0 rw2 rw3" by blast
    have inner_step: "\<exists>t'. ?inner lhsTile m n t = Some t' \<and> ?P (Suc n) t' \<and>
                        emits ?b 1 (snd t) (snd t')"
      if n: "n < nat tN" and pin: "?P n t" for n t
    proof -
      obtain acc2 rw4 where t: "t = (acc2, rw4)" by (cases t)
      from pin t have g: "tileGrid (nat tM) (nat tN) acc2" by simp
      have ra: "tileAt rhsTiles 0 n = Some (rhsTiles ! 0 ! n)"
        using tileAt_grid [OF rg _ n, of 0] by simp
      from multiplyTile_emits [OF g m n store, of blockM blockN tM tN lhsTile
             "rhsTiles ! 0 ! n" rw4]
      show ?thesis using ra t by auto
    qed
    have start: "?P 0 (acc1, rw3)" using inv s by simp
    from forLoop_upt [of ?P "(acc1, rw3)" "nat tN" "?inner lhsTile m" ?b 1, OF start inner_step]
    obtain s' where s': "forLoop [0..<nat tN] (?inner lhsTile m) (acc1, rw3) = Some s'"
      "?P (nat tN) s'" "emits ?b (nat tN * 1) rw3 (snd s')" by auto
    from emits_trans [OF e1 s'(3)] have "emits ?b (nat tN) rw2 (snd s')" by simp
    with s s' lt show ?thesis by simp
  qed
  have start: "?P 0 (accTiles, rw1)" using grid by simp
  from forLoop_upt [of ?P "(accTiles, rw1)" "nat tM" ?outer ?b "nat tN", OF start outer_step]
  obtain s' where s': "forLoop [0..<nat tM] ?outer (accTiles, rw1) = Some s'"
    "?P (nat tM) s'" "emits ?b (nat tM * nat tN) rw1 (snd s')" by auto
  obtain acc' rw' where sp: "s' = (acc', rw')" by (cases s')
  from emits_trans [OF e0 s'(3)] have "emits ?b (nat tM * nat tN) rw rw'" using sp by simp
  with s' sp load show ?thesis
    by (simp add: multiplyBlocksPreloadRhs_def)
qed

lemma reductionStep_emits:
  assumes tys: "rank2 lhsTileTy" "rank2 rhsTileTy" "rank2 accTileTy"
    and bufs: "usableBuffer lhsBuf" "usableBuffer rhsBuf" "usableBuffer resBuf"
    and tM: "0 \<le> tilesInBlockM candidate"
    and grid: "tileGrid (nat (tilesInBlockM candidate)) (nat (tilesInBlockN candidate)) accTiles"
  shows "\<exists>accTiles' rw'.
           reductionStep candidate lhsTileTy rhsTileTy accTileTy lhsBuf rhsBuf resBuf
             tilesInVectorK blockM blockN blocK (accTiles, rw) = Some (accTiles', rw') \<and>
           tileGrid (nat (tilesInBlockM candidate)) (nat (tilesInBlockN candidate)) accTiles' \<and>
           emits (isInteger (tileElementType accTileTy))
             (nat (tilesInBlockM candidate) * nat (tilesInBlockN candidate)) rw rw'"
proof -
  let ?store = "\<not> keepAccOnTiles candidate \<and> int blocK = tilesInVectorK - 1"
  have store: "?store \<longrightarrow> rank2 accTileTy \<and> usableBuffer resBuf"
    using tys(3) bufs(3) by simp
  show ?thesis
  proof (cases "tilesInBlockM candidate \<le> tilesInBlockN candidate")
    case True
    from multiplyBlocksPreloadLhs_emits [OF tys(1,2) bufs(1,2) store tM grid,
           of blockM blockN "int blocK" rw]
    show ?thesis using True by (simp add: reductionStep_def Let_def mult.commute)
  next
    case False
    from multiplyBlocksPreloadRhs_emits [OF tys(1,2) bufs(1,2) store grid,
           of blockM blockN "int blocK" rw]
    show ?thesis using False by (simp add: reductionStep_def Let_def)
  qed
qed

lemma convertBlock_emits:
  assumes tys: "rank2 lhsTileTy" "rank2 rhsTileTy" "rank2 accTileTy"
    and bufs: "usableBuffer lhsBuf" "usableBuffer rhsBuf" "usableBuffer resBuf"
    and accBuf: "memRef accBuf \<noteq> None \<longrightarrow> 2 \<le> length (indices accBuf)"
    and tM: "0 \<le> tilesInBlockM candidate"
    and grid: "keepAccOnTiles candidate \<longrightarrow>
               tileGrid (nat (tilesInBlockM candidate)) (nat (tilesInBlockN candidate)) accTiles"
  shows "\<exists>accTiles' rw'.
           convertBlock candidate lhsTileTy rhsTileTy accTileTy lhsBuf rhsBuf accBuf resBuf
             tilesInVectorK blockM blockN (accTiles, rw) = Some (accTiles', rw') \<and>
           tileGrid (nat (tilesInBlockM candidate)) (nat (tilesInBlockN candidate)) accTiles' \<and>
           emits (isInteger (tileElementType accTileTy))
             (nat tilesInVectorK *
                (nat (tilesInBlockM candidate) * nat (tilesInBlockN candidate))) rw rw'"
proof -
  let ?b = "isInteger (tileElementType accTileTy)"
  let ?gm = "nat (tilesInBlockM candidate)" and ?gn = "nat (tilesInBlockN candidate)"
  let ?P = "\<lambda>(i::nat) (s :: Value list list \<times> Rewriter). tileGrid ?gm ?gn (fst s)"
  let ?first = "if \<not> keepAccOnTiles candidate
               then loadBlockTiles accTileTy accBuf (tilesInBlockM candidate)
                      (tilesInBlockN candidate) blockM blockN rw
               else Some (accTiles, rw)"
  have "\<exists>acc1 rw1. ?first = Some (acc1, rw1) \<and> tileGrid ?gm ?gn acc1 \<and> emits ?b 0 rw rw1"
  proof (cases "keepAccOnTiles candidate")
    case True
    with grid show ?thesis by (simp add: emits_refl)
  next
    case False
    from loadBlockTiles_grid [OF tys(3) accBuf tM, of "tilesInBlockN candidate" blockM blockN
           rw ?b]
    show ?thesis using False by simp
  qed
  then obtain acc1 rw1 where first: "?first = Some (acc1, rw1)"
    and g1: "tileGrid ?gm ?gn acc1" and e0: "emits ?b 0 rw rw1" by blast
  have step: "\<exists>s'. reductionStep candidate lhsTileTy rhsTileTy accTileTy lhsBuf rhsBuf resBuf
                      tilesInVectorK blockM blockN i s = Some s' \<and> ?P (Suc i) s' \<and>
                    emits ?b (?gm * ?gn) (snd s) (snd s')"
    if "i < nat tilesInVectorK" and inv: "?P i s" for i s
  proof -
    obtain acc2 rw2 where s: "s = (acc2, rw2)" by (cases s)
    from inv s have g: "tileGrid ?gm ?gn acc2" by simp
    from reductionStep_emits [OF tys bufs tM g, of tilesInVectorK blockM blockN i rw2]
    show ?thesis using s by auto
  qed
  have start: "?P 0 (acc1, rw1)" using g1 by simp
  from forLoop_upt [of ?P "(acc1, rw1)" "nat tilesInVectorK"
         "reductionStep candidate lhsTileTy rhsTileTy accTileTy lhsBuf rhsBuf resBuf
            tilesInVectorK blockM blockN" ?b "?gm * ?gn", OF start step]
  obtain s' where s': "forLoop [0..<nat tilesInVectorK]
         (reductionStep candidate lhsTileTy rhsTileTy accTileTy lhsBuf rhsBuf resBuf
            tilesInVectorK blockM blockN) (acc1, rw1) = Some s'"
    "?P (nat tilesInVectorK) s'"
    "emits ?b (nat tilesInVectorK * (?gm * ?gn)) rw1 (snd s')" by auto
  obtain acc' rw' where sp: "s' = (acc', rw')" by (cases s')
  from emits_trans [OF e0 s'(3)] sp
  have "emits ?b (nat tilesInVectorK * (?gm * ?gn)) rw rw'" by simp
  with s' sp first show ?thesis by (simp add: convertBlock_def)
qed


lemma initial_blocks_nonneg: "(m::int) \<noteq> 0 \<Longrightarrow> 0 \<le> m sdiv min m 16"
proof (cases "0 < m")
  case True
  then show ?thesis by (simp add: sdiv_nonneg_eq_div min_def pos_imp_zdiv_nonneg_iff)
next
  case False
  assume "m \<noteq> 0"
  with False have "min m 16 = m" by simp
  then show ?thesis by (simp add: signed_divide_int_def sgn_mult_self_eq)
qed

lemma plannedSizes_nonneg:
  assumes "plannedSizes dot c"
  shows "0 \<le> tilesInBlockM c" and "0 \<le> tilesInBlockN c"
    and "0 \<le> shape (lhsTy dot) ! 1 sdiv tileK c"
proof -
  let ?m = "shape (resTy dot) ! 0" and ?n = "shape (resTy dot) ! 1"
  from assms have m: "?m \<noteq> 0" and n: "8 \<le> ?n"
    and bm: "tilesInBlockM c = fst (accBlocksLoop (?m sdiv min ?m 16) (?n sdiv min ?n 16))"
    and bn: "tilesInBlockN c = snd (accBlocksLoop (?m sdiv min ?m 16) (?n sdiv min ?n 16))"
    unfolding plannedSizes_def Let_def by blast+
  have a: "0 \<le> ?m sdiv min ?m 16" using m by (rule initial_blocks_nonneg)
  have b: "0 \<le> ?n sdiv min ?n 16" using n by (intro initial_blocks_nonneg) simp
  from accBlocksLoop_nonneg [OF a b] show "0 \<le> tilesInBlockM c" "0 \<le> tilesInBlockN c"
    by (simp_all add: bm bn)
  from assms obtain ty where k: "8 \<le> shape (lhsTy dot) ! 1"
    and "getIntOrFloatBitWidth ty = 8 \<or> getIntOrFloatBitWidth ty = 16"
    and "tileK c = min (shape (lhsTy dot) ! 1) (512 sdiv int (getIntOrFloatBitWidth ty))"
    unfolding plannedSizes_def Let_def by blast
  then have "0 \<le> tileK c" by auto
  with k show "0 \<le> shape (lhsTy dot) ! 1 sdiv tileK c"
    by (simp add: sdiv_nonneg_eq_div div_int_pos_iff)
qed

lemma initial_blocks_pos: "(m::int) \<noteq> 0 \<Longrightarrow> 1 \<le> m sdiv min m 16"
proof (cases "0 < m")
  case True
  show ?thesis
  proof (cases "m \<le> 16")
    case True
    with \<open>0 < m\<close> show ?thesis by (simp add: sdiv_nonneg_eq_div min_def)
  next
    case False
    then have "1 \<le> m div 16" by presburger
    with False show ?thesis by (simp add: sdiv_nonneg_eq_div min_def)
  qed
next
  case False
  assume "m \<noteq> 0"
  with False have "min m 16 = m" by simp
  then show ?thesis using \<open>m \<noteq> 0\<close> by (simp add: signed_divide_int_def sgn_mult_self_eq)
qed

lemma plannedSizes_nonzero:
  assumes "plannedSizes dot c"
  shows "tileM c \<noteq> 0 \<and> tileN c \<noteq> 0 \<and> tileK c \<noteq> 0 \<and>
         1 \<le> tilesInBlockM c \<and> 1 \<le> tilesInBlockN c"
proof -
  let ?m = "shape (resTy dot) ! 0" and ?n = "shape (resTy dot) ! 1"
  from assms have m: "?m \<noteq> 0" and n: "8 \<le> ?n"
    and tm: "tileM c = min ?m 16" and tn: "tileN c = min ?n 16"
    and bm: "tilesInBlockM c = fst (accBlocksLoop (?m sdiv min ?m 16) (?n sdiv min ?n 16))"
    and bn: "tilesInBlockN c = snd (accBlocksLoop (?m sdiv min ?m 16) (?n sdiv min ?n 16))"
    unfolding plannedSizes_def Let_def by blast+
  from assms obtain ty where k: "8 \<le> shape (lhsTy dot) ! 1"
    and "getIntOrFloatBitWidth ty = 8 \<or> getIntOrFloatBitWidth ty = 16"
    and "tileK c = min (shape (lhsTy dot) ! 1) (512 sdiv int (getIntOrFloatBitWidth ty))"
    unfolding plannedSizes_def Let_def by blast
  then have tk: "tileK c \<noteq> 0" by auto
  have a: "1 \<le> ?m sdiv min ?m 16" using m by (rule initial_blocks_pos)
  have b: "1 \<le> ?n sdiv min ?n 16" using n by (intro initial_blocks_pos) simp
  from accBlocksLoop_positive [OF a b] m n tk show ?thesis
    by (simp add: tm tn bm bn min_def)
qed

text \<open>
  The whole nest of an accepted operation runs through, and it creates the multiplies of
  \<open>blocksInAccM * blocksInAccN\<close> blocks; inside it every call of \<open>convertBlock\<close> meets
  the assumption on \<open>accTiles\<close> made below.
\<close>

lemma convertCandidateTiles_emits:
  assumes accepted:
      "isAmxCandidate dot supportInt8 supportFp16 supportBf16 c0 = Some (True, candidate)"
    and accRank: "2 \<le> length (shape (accTy dot))"
    and rhsTy: "rank2 rhsTileTy"
    and bufs: "usableBuffer lhsBuf" "usableBuffer rhsBuf" "usableBuffer resBuf"
      "memRef accBuf \<noteq> None \<longrightarrow> 2 \<le> length (indices accBuf)"
  shows "\<exists>accTiles' rw' accElemTy.
           convertCandidateTiles candidate rhsTileTy lhsBuf rhsBuf accBuf resBuf rw
             = Some (accTiles', rw') \<and>
           accTileElemTy candidate = Some accElemTy \<and>
           emits (isInteger accElemTy)
             (nat (shape (accTy dot) ! 0 sdiv tileM candidate sdiv tilesInBlockM candidate) *
              (nat (shape (accTy dot) ! 1 sdiv tileN candidate sdiv tilesInBlockN candidate) *
               (nat (shape (lhsTy dot) ! 1 sdiv tileK candidate) *
                (nat (tilesInBlockM candidate) * nat (tilesInBlockN candidate))))) rw rw'"
proof -
  from isAmxCandidate_accepted [OF accepted] obtain accElemTy where
    p: "plannedSizes dot candidate" and ae: "accTileElemTy candidate = Some accElemTy" by blast
  from p obtain inTy where it: "lhsTileElemTy candidate = Some inTy"
    and oc: "op candidate = Some dot" and lr: "length (shape (lhsTy dot)) = 2"
    unfolding plannedSizes_def Let_def by blast
  note nz = plannedSizes_nonzero [OF p]
  define lhsTileTy where
    "lhsTileTy = \<lparr>tileShape = [tileM candidate, tileK candidate], tileElementType = inTy\<rparr>"
  define accTileTy where
    "accTileTy = \<lparr>tileShape = [tileM candidate, tileN candidate], tileElementType = accElemTy\<rparr>"
  have lt: "lhsTileType candidate = Some lhsTileTy"
    and at: "accTileType candidate = Some accTileTy"
    by (simp_all add: lhsTileType_def accTileType_def it ae lhsTileTy_def accTileTy_def)
  have r: "rank2 lhsTileTy" "rank2 accTileTy"
    by (simp_all add: rank2_def lhsTileTy_def accTileTy_def)
  have b: "isInteger (tileElementType accTileTy) = isInteger accElemTy"
    by (simp add: accTileTy_def)
  let ?b = "isInteger accElemTy"
  let ?gm = "nat (tilesInBlockM candidate)" and ?gn = "nat (tilesInBlockN candidate)"
  let ?K = "shape (lhsTy dot) ! 1 sdiv tileK candidate"
  let ?BM = "shape (accTy dot) ! 0 sdiv tileM candidate sdiv tilesInBlockM candidate"
  let ?BN = "shape (accTy dot) ! 1 sdiv tileN candidate sdiv tilesInBlockN candidate"
  let ?P = "\<lambda>(i::nat) (s :: Value list list \<times> Rewriter).
              keepAccOnTiles candidate \<longrightarrow> tileGrid ?gm ?gn (fst s)"
  have tM: "0 \<le> tilesInBlockM candidate" using nz by simp
  let ?first = "if keepAccOnTiles candidate
                then loadBlockTiles accTileTy accBuf (tilesInBlockM candidate)
                       (tilesInBlockN candidate) 0 0 rw
                else Some ([], rw)"
  have "\<exists>s0. ?first = Some s0 \<and> ?P 0 s0 \<and> emits ?b 0 rw (snd s0)"
  proof (cases "keepAccOnTiles candidate")
    case True
    from loadBlockTiles_grid [OF r(2) bufs(4) tM, of "tilesInBlockN candidate" 0 0 rw ?b]
    show ?thesis using True by auto
  next
    case False
    then show ?thesis by (simp add: emits_refl)
  qed
  then obtain s0 where first: "?first = Some s0" and g0: "?P 0 s0"
    and e0: "emits ?b 0 rw (snd s0)" by blast
  let ?body = "\<lambda>blockM. forLoop [0..<nat ?BN]
                 (\<lambda>blockN. convertBlock candidate lhsTileTy rhsTileTy accTileTy lhsBuf rhsBuf
                              accBuf resBuf ?K (int blockM) (int blockN))"
  have outer: "\<exists>s'. ?body i s = Some s' \<and> ?P (Suc i) s' \<and>
                 emits ?b (nat ?BN * (nat ?K * (?gm * ?gn))) (snd s) (snd s')"
    if "i < nat ?BM" and inv: "?P i s" for i s
  proof -
    have inner: "\<exists>t'. convertBlock candidate lhsTileTy rhsTileTy accTileTy lhsBuf rhsBuf
                         accBuf resBuf ?K (int i) (int j) t = Some t' \<and> ?P (Suc j) t' \<and>
                       emits ?b (nat ?K * (?gm * ?gn)) (snd t) (snd t')"
      if "j < nat ?BN" and pin: "?P j t" for j t
    proof -
      obtain acc2 rw2 where t: "t = (acc2, rw2)" by (cases t)
      from pin t have g: "keepAccOnTiles candidate \<longrightarrow> tileGrid ?gm ?gn acc2" by simp
      from convertBlock_emits [OF r(1) rhsTy r(2) bufs tM g, of ?K "int i" "int j" rw2]
      show ?thesis using t b by auto
    qed
    have start: "?P 0 s" using inv by simp
    from forLoop_upt [of ?P s "nat ?BN"
           "\<lambda>blockN. convertBlock candidate lhsTileTy rhsTileTy accTileTy lhsBuf rhsBuf
                        accBuf resBuf ?K (int i) (int blockN)"
           ?b "nat ?K * (?gm * ?gn)", OF start inner]
    show ?thesis by blast
  qed
  from forLoop_upt [of ?P s0 "nat ?BM" ?body ?b "nat ?BN * (nat ?K * (?gm * ?gn))",
         OF g0 outer]
  obtain s' where s': "forLoop [0..<nat ?BM] ?body s0 = Some s'"
    "emits ?b (nat ?BM * (nat ?BN * (nat ?K * (?gm * ?gn)))) (snd s0) (snd s')" by blast
  obtain acc' rw' where sp: "s' = (acc', rw')" by (cases s')
  from emits_trans [OF e0 s'(2)] sp
  have e: "emits ?b (nat ?BM * (nat ?BN * (nat ?K * (?gm * ?gn)))) rw rw'" by simp
  have dims: "getDimSize (accTy dot) 0 = Some (shape (accTy dot) ! 0)"
    "getDimSize (accTy dot) 1 = Some (shape (accTy dot) ! 1)"
    "getDimSize (lhsTy dot) 1 = Some (shape (lhsTy dot) ! 1)"
    using accRank lr by (auto simp: getDimSize_def dimAt_def)
  have "convertCandidateTiles candidate rhsTileTy lhsBuf rhsBuf accBuf resBuf rw
          = Some (acc', rw')"
    using oc lt at first dims nz s'(1) sp
    by (simp add: convertCandidateTiles_def Let_def)
  with ae e show ?thesis by blast
qed

text \<open>
  Claim C8.  For an accepted operation and an accumulator block \<open>(blockM, blockN)\<close>, the
  code generated for the block (\<open>convertBlock\<close>, with \<open>tilesInVectorK = K / tileK\<close>) is
  generated without failure and contains exactly
  \<open>tilesInBlockM * tilesInBlockN * (K / tileK)\<close> tile multiplies; each is the integer
  multiply if the legalized accumulator tile element type is an integer type and the
  floating-point multiply otherwise.  The tile types are those of the candidate, the LHS,
  RHS and result buffers have memory and two indices, and when the accumulator is kept on
  tiles \<open>accTiles\<close> holds the \<open>tilesInBlockM \<times> tilesInBlockN\<close> tiles loaded before the
  loop nest.
\<close>

theorem convertBlock_multiply_count:
  assumes accepted:
      "isAmxCandidate dot supportInt8 supportFp16 supportBf16 c0 = Some (True, candidate)"
    and tys: "lhsTileType candidate = Some lhsTileTy" "accTileType candidate = Some accTileTy"
      "rank2 rhsTileTy"
    and bufs: "usableBuffer lhsBuf" "usableBuffer rhsBuf" "usableBuffer resBuf"
      "memRef accBuf \<noteq> None \<longrightarrow> 2 \<le> length (indices accBuf)"
    and grid: "keepAccOnTiles candidate \<longrightarrow>
               tileGrid (nat (tilesInBlockM candidate)) (nat (tilesInBlockN candidate)) accTiles"
  shows "\<exists>accTiles' rw' new.
           convertBlock candidate lhsTileTy rhsTileTy accTileTy lhsBuf rhsBuf accBuf resBuf
             (shape (lhsTy dot) ! 1 sdiv tileK candidate) blockM blockN (accTiles, rw)
             = Some (accTiles', rw') \<and>
           created rw' = created rw @ new \<and>
           int (length (filter isTileMul new))
             = tilesInBlockM candidate * tilesInBlockN candidate *
               (shape (lhsTy dot) ! 1 sdiv tileK candidate) \<and>
           accTileElemTy candidate = Some (tileElementType accTileTy) \<and>
           (\<forall>operation \<in> set new. isTileMul operation \<longrightarrow>
              (if isInteger (tileElementType accTileTy) then isTileMulI operation
               else isTileMulF operation))"
proof -
  let ?K = "shape (lhsTy dot) ! 1 sdiv tileK candidate"
  from isAmxCandidate_accepted [OF accepted] have p: "plannedSizes dot candidate" by simp
  note nn = plannedSizes_nonneg [OF p]
  have r: "rank2 lhsTileTy" "rank2 accTileTy"
    using tys(1,2) by (auto simp: lhsTileType_def accTileType_def rank2_def)
  have el: "accTileElemTy candidate = Some (tileElementType accTileTy)"
    using tys(2) by (auto simp: accTileType_def)
  from convertBlock_emits [OF r(1) tys(3) r(2) bufs(1,2,3,4) nn(1) grid, of ?K blockM blockN rw]
  obtain accTiles' rw' where run:
    "convertBlock candidate lhsTileTy rhsTileTy accTileTy lhsBuf rhsBuf accBuf resBuf
       ?K blockM blockN (accTiles, rw) = Some (accTiles', rw')"
    and e: "emits (isInteger (tileElementType accTileTy))
              (nat ?K * (nat (tilesInBlockM candidate) * nat (tilesInBlockN candidate))) rw rw'"
    by blast
  from e obtain new where new: "created rw' = created rw @ new"
    "length (filter isTileMul new)
       = nat ?K * (nat (tilesInBlockM candidate) * nat (tilesInBlockN candidate))"
    "\<forall>operation \<in> set new. isTileMul operation \<longrightarrow>
       (if isInteger (tileElementType accTileTy) then isTileMulI operation
        else isTileMulF operation)"
    unfolding emits_def by blast
  have "int (length (filter isTileMul new))
          = tilesInBlockM candidate * tilesInBlockN candidate * ?K"
    using nn by (simp add: new(2))
  with run new(1,3) el show ?thesis by blast
qed

lemma dot64x128_accepted:
  "isAmxCandidate (int8Dot 64 64 128 True) True True True (defaultCandidate 0 0 0 0 0) =
   Some (True, exampleCandidate (int8Dot 64 64 128 True) (IntegerType 8) (IntegerType 32)
                 16 16 64 2 2 False True)"
  by (simp add: analysis_defs)

text \<open>
  A loop-carried 64\<times>64 accumulator with \<open>K = 128\<close>: blocks of 2\<times>2 tiles and two
  reduction steps give 8 integer multiplies for block \<open>(0, 1)\<close>.
\<close>

theorem convertBlock_multiply_count_witness:
  "\<exists>accTiles' rw'.
     convertBlock
       (exampleCandidate (int8Dot 64 64 128 True) (IntegerType 8) (IntegerType 32)
          16 16 64 2 2 False True)
       \<lparr>tileShape = [16, 64], tileElementType = IntegerType 8\<rparr>
       \<lparr>tileShape = [16, 64], tileElementType = IntegerType 8\<rparr>
       \<lparr>tileShape = [16, 16], tileElementType = IntegerType 32\<rparr>
       (exampleBuffer 1) (exampleBuffer 2) (exampleBuffer 3) (exampleBuffer 3)
       2 0 1 ([], \<lparr>created = [], nextValue = 10\<rparr>) = Some (accTiles', rw') \<and>
     length (filter isTileMul (created rw')) = 8 \<and>
     length (filter isTileMulI (created rw')) = 8"
proof -
  let ?c = "exampleCandidate (int8Dot 64 64 128 True) (IntegerType 8) (IntegerType 32)
              16 16 64 2 2 False True"
  have t1: "lhsTileType ?c = Some \<lparr>tileShape = [16, 64], tileElementType = IntegerType 8\<rparr>"
    and t2: "accTileType ?c = Some \<lparr>tileShape = [16, 16], tileElementType = IntegerType 32\<rparr>"
    and t3: "rank2 \<lparr>tileShape = [16, 64], tileElementType = IntegerType 8\<rparr>"
    by (simp_all add: lhsTileType_def accTileType_def exampleCandidate_def rank2_def)
  have b: "usableBuffer (exampleBuffer 1)" "usableBuffer (exampleBuffer 2)"
    "usableBuffer (exampleBuffer 3)"
    "memRef (exampleBuffer 3) \<noteq> None \<longrightarrow> 2 \<le> length (indices (exampleBuffer 3))"
    by (simp_all add: usableBuffer_def exampleBuffer_def)
  have g: "keepAccOnTiles ?c \<longrightarrow> tileGrid (nat (tilesInBlockM ?c)) (nat (tilesInBlockN ?c)) []"
    by (simp add: exampleCandidate_def)
  have k: "shape (lhsTy (int8Dot 64 64 128 True)) ! 1 sdiv tileK ?c = 2"
    by (simp add: int8Dot_def exampleDot_def exampleCandidate_def)
  from convertBlock_multiply_count [OF dot64x128_accepted t1 t2 t3 b g,
         of 0 1 "\<lparr>created = [], nextValue = 10\<rparr>"]
  obtain accTiles' rw' new where run: "convertBlock ?c
       \<lparr>tileShape = [16, 64], tileElementType = IntegerType 8\<rparr>
       \<lparr>tileShape = [16, 64], tileElementType = IntegerType 8\<rparr>
       \<lparr>tileShape = [16, 16], tileElementType = IntegerType 32\<rparr>
       (exampleBuffer 1) (exampleBuffer 2) (exampleBuffer 3) (exampleBuffer 3)
       2 0 1 ([], \<lparr>created = [], nextValue = 10\<rparr>) = Some (accTiles', rw')"
    and new: "created rw' = new" "int (length (filter isTileMul new)) = 8"
      "\<forall>operation \<in> set new. isTileMul operation \<longrightarrow> isTileMulI operation"
    unfolding k by (auto simp: exampleCandidate_def)
  have "filter isTileMulI new = filter isTileMul new"
    using new(3) by (intro filter_cong) (auto simp: isTileMul_def)
  with run new(1,2) show ?thesis by simp
qed
end
